theory Spec2Isabelle
  imports Complex_Main "HOL-Library.Log_Nat" "HOL-Library.AList"
begin

section \<open>Sentiment analysis of exported bookmarks (examples/sentiment-analysis.py)\<close>

text \<open>
  The script reads a JSON document, scores the text of every bookmark with a keyword
  lexicon and prints the document again, enriched. This theory embeds the script as HOL
  functions: Python values parsed from JSON are the datatype \<open>json\<close>, a raised exception
  is the left summand of a result, the \<open>for\<close> loop is a recursion with its two
  accumulators, and a Python \<open>float\<close> is the rational number it denotes.
\<close>

subsection \<open>Python values\<close>

text \<open>
  What \<open>json.loads\<close> returns: \<open>None\<close>, \<open>bool\<close>, \<open>int\<close>, \<open>float\<close>, \<open>str\<close>, \<open>list\<close> and
  \<open>dict\<close>. A \<open>dict\<close> is its list of items in insertion order; keys are looked up with
  \<open>map_of\<close> and stored with \<open>AList.update\<close>, which overwrites in place and appends a new
  key at the end, as a Python \<open>dict\<close> does. A \<open>str\<close> is a list of 8-bit characters read as
  the code points U+0000 to U+00FF; code points above U+00FF are not represented. A
  \<open>float\<close> is the rational value of the double; the sign of a zero, infinities and NaN
  are not represented.
\<close>

datatype json =
    JNull
  | JBool bool
  | JInt int
  | JFloat rat
  | JStr string
  | JArr "json list"
  | JObj "(string \<times> json) list"

datatype py_error = JSONDecodeError | AttributeError | TypeError | ZeroDivisionError

text \<open>Sequencing of computations that may raise: the first exception wins.\<close>

definition py_bind :: "py_error + 'a \<Rightarrow> ('a \<Rightarrow> py_error + 'b) \<Rightarrow> py_error + 'b" where
  "py_bind m f = (case m of Inl e \<Rightarrow> Inl e | Inr x \<Rightarrow> f x)"

text \<open>Truth value testing, \<open>not x\<close> being the negation of \<open>truthy x\<close>.\<close>

fun truthy :: "json \<Rightarrow> bool" where
  "truthy JNull = False"
| "truthy (JBool b) = b"
| "truthy (JInt i) = (i \<noteq> 0)"
| "truthy (JFloat x) = (x \<noteq> 0)"
| "truthy (JStr s) = (s \<noteq> [])"
| "truthy (JArr xs) = (xs \<noteq> [])"
| "truthy (JObj kvs) = (kvs \<noteq> [])"

text \<open>\<open>x.get(key, default)\<close>: only a \<open>dict\<close> has the attribute \<open>get\<close>.\<close>

fun dict_get :: "json \<Rightarrow> string \<Rightarrow> json \<Rightarrow> py_error + json" where
  "dict_get (JObj kvs) k d = Inr (case map_of kvs k of Some v \<Rightarrow> v | None \<Rightarrow> d)"
| "dict_get _ k d = Inl AttributeError"

text \<open>\<open>**x\<close> inside a dict display: \<open>x\<close> must be a mapping.\<close>

fun unpack :: "json \<Rightarrow> py_error + (string \<times> json) list" where
  "unpack (JObj kvs) = Inr kvs"
| "unpack _ = Inl TypeError"

text \<open>
  \<open>for b in x\<close>: a list yields its elements, a string its characters, a dict its keys;
  the other values are not iterable.
\<close>

fun iterate :: "json \<Rightarrow> py_error + json list" where
  "iterate (JArr xs) = Inr xs"
| "iterate (JStr s) = Inr (map (\<lambda>c. JStr [c]) s)"
| "iterate (JObj kvs) = Inr (map (\<lambda>kv. JStr (fst kv)) kvs)"
| "iterate _ = Inl TypeError"

subsection \<open>Floating point\<close>

text \<open>
  Round half to even, to an integer. Both the conversion to the nearest double and
  Python's \<open>round\<close> break ties this way.
\<close>

definition rhe :: "rat \<Rightarrow> int" where
  "rhe x = (let f = \<lfloor>x\<rfloor>; d = x - of_int f in
            if d < 1 / 2 then f
            else if 1 / 2 < d then f + 1
            else if even f then f else f + 1)"

text \<open>The binary exponent \<open>e\<close> of a positive rational: \<open>2 powi e \<le> x < 2 powi (e + 1)\<close>.\<close>

definition ilog2 :: "rat \<Rightarrow> int" where
  "ilog2 x = (if 1 \<le> x then bitlen \<lfloor>x\<rfloor> - 1 else - bitlen (\<lceil>1 / x\<rceil> - 1))"

text \<open>
  The double nearest to a rational, ties to even: 53 significant bits, and below
  \<open>2 powi (-1022)\<close> the fixed spacing \<open>2 powi (-1074)\<close> of the subnormal numbers.
  Overflow is left out: every quotient rounded here has magnitude at most 1.
\<close>

definition quantum :: "rat \<Rightarrow> rat" where
  "quantum x = 2 powi (max (ilog2 \<bar>x\<bar> - 52) (- 1074))"

definition fl :: "rat \<Rightarrow> rat" where
  "fl x = (if x = 0 then 0 else of_int (rhe (x / quantum x)) * quantum x)"

text \<open>
  \<open>a / b\<close> on two \<open>int\<close>s is true division: it raises on a zero divisor and otherwise
  returns the correctly rounded quotient.
\<close>

definition py_truediv :: "int \<Rightarrow> int \<Rightarrow> py_error + rat" where
  "py_truediv a b = (if b = 0 then Inl ZeroDivisionError else Inr (fl (of_int a / of_int b)))"

text \<open>
  \<open>round(x, ndigits)\<close> on a \<open>float\<close>, for the small non-negative \<open>ndigits\<close> used here:
  the exact value of \<open>x\<close> is rounded half-even to \<open>ndigits\<close> decimal places, and the
  decimal result is converted to the nearest double.
\<close>

definition round_half_even_dp :: "rat \<Rightarrow> nat \<Rightarrow> rat" where
  "round_half_even_dp x ndigits = of_int (rhe (x * 10 ^ ndigits)) / 10 ^ ndigits"

definition py_round :: "rat \<Rightarrow> nat \<Rightarrow> rat" where
  "py_round x ndigits = fl (round_half_even_dp x ndigits)"

subsection \<open>Text normalisation and the regular expression\<close>

text \<open>\<open>\w\<close> on code points up to U+00FF: alphanumeric in Unicode, or the underscore.\<close>

definition is_word_char :: "char \<Rightarrow> bool" where
  "is_word_char c = (let n = (of_char c :: nat) in
     (48 \<le> n \<and> n \<le> 57) \<or> (65 \<le> n \<and> n \<le> 90) \<or> n = 95 \<or> (97 \<le> n \<and> n \<le> 122) \<or>
     n = 170 \<or> n = 178 \<or> n = 179 \<or> n = 181 \<or> n = 185 \<or> n = 186 \<or>
     (188 \<le> n \<and> n \<le> 190) \<or> (192 \<le> n \<and> n \<le> 214) \<or> (216 \<le> n \<and> n \<le> 246) \<or>
     (248 \<le> n \<and> n \<le> 255))"

text \<open>\<open>str.lower\<close> on code points up to U+00FF.\<close>

definition lower_char :: "char \<Rightarrow> char" where
  "lower_char c = (let n = (of_char c :: nat) in
     if (65 \<le> n \<and> n \<le> 90) \<or> (192 \<le> n \<and> n \<le> 222 \<and> n \<noteq> 215) then char_of (n + 32) else c)"

definition lower :: "string \<Rightarrow> string" where
  "lower s = map lower_char s"

text \<open>
  \<open>\b\<close> holds between two positions exactly one of which is a word character; the
  positions before the first and after the last character count as non-word.
\<close>

definition word_before :: "char option \<Rightarrow> bool" where
  "word_before prev = (case prev of None \<Rightarrow> False | Some c \<Rightarrow> is_word_char c)"

definition word_here :: "string \<Rightarrow> bool" where
  "word_here s = (case s of [] \<Rightarrow> False | c # cs \<Rightarrow> is_word_char c)"

definition at_boundary :: "char option \<Rightarrow> string \<Rightarrow> bool" where
  "at_boundary prev s = (word_before prev \<noteq> word_here s)"

text \<open>
  One attempt to match \<open>\b\w+\b\<close> at the current position, \<open>prev\<close> being the character
  before it and \<open>s\<close> the rest of the subject: the length of the match. The greedy
  \<open>\w+\<close> first takes every word character there is and gives them back one at a time
  until the closing \<open>\b\<close> holds.
\<close>

definition match_word :: "char option \<Rightarrow> string \<Rightarrow> nat option" where
  "match_word prev s =
     (if at_boundary prev s
      then find (\<lambda>k. at_boundary (Some (s ! (k - 1))) (drop k s))
             (rev [1..<Suc (length (takeWhile is_word_char s))])
      else None)"

text \<open>
  \<open>re.findall\<close>: scan from left to right; after a match the scan goes on where the match
  ended, and after a failed attempt (or an empty match) one character further.
\<close>

fun findall_words :: "char option \<Rightarrow> string \<Rightarrow> string list" where
  "findall_words prev [] = []"
| "findall_words prev (c # cs) =
     (case match_word prev (c # cs) of
        None \<Rightarrow> findall_words (Some c) cs
      | Some k \<Rightarrow> take k (c # cs) # findall_words (Some ((c # cs) ! (k - 1))) (drop (k - 1) cs))"

subsection \<open>The scorer\<close>

datatype label = Positive | Negative | Neutral

definition POSITIVE_WORDS :: "string set" where
  "POSITIVE_WORDS = {
     ''good'', ''great'', ''excellent'', ''amazing'', ''awesome'', ''fantastic'', ''wonderful'',
     ''love'', ''best'', ''perfect'', ''brilliant'', ''outstanding'', ''superb'', ''incredible'',
     ''helpful'', ''useful'', ''valuable'', ''important'', ''interesting'', ''insightful''}"

definition NEGATIVE_WORDS :: "string set" where
  "NEGATIVE_WORDS = {
     ''bad'', ''terrible'', ''awful'', ''horrible'', ''worst'', ''poor'', ''disappointing'',
     ''hate'', ''useless'', ''broken'', ''failed'', ''error'', ''problem'', ''issue'', ''bug'',
     ''difficult'', ''confusing'', ''complicated'', ''frustrating'', ''annoying''}"

text \<open>\<open>sum(1 for word in words if word in LEXICON)\<close>\<close>

definition count_in :: "string set \<Rightarrow> string list \<Rightarrow> int" where
  "count_in lexicon words = sum_list (map (\<lambda>word. 1) (filter (\<lambda>word. word \<in> lexicon) words))"

definition words_of :: "string \<Rightarrow> string list" where
  "words_of text = findall_words None (lower text)"

definition positive_count :: "string \<Rightarrow> int" where
  "positive_count text = count_in POSITIVE_WORDS (words_of text)"

definition negative_count :: "string \<Rightarrow> int" where
  "negative_count text = count_in NEGATIVE_WORDS (words_of text)"

text \<open>The literal \<open>0.2\<close> is the double nearest to one fifth.\<close>

definition threshold :: rat where
  "threshold = fl (1 / 5)"

definition sentiment_of :: "rat \<Rightarrow> label" where
  "sentiment_of score =
     (if score > threshold then Positive
      else if score < - threshold then Negative
      else Neutral)"

text \<open>
  The argument is whatever the caller found under the key \<open>text\<close>: a falsy value of any
  type returns at once, and a truthy value that is not a string has no method \<open>lower\<close>.
\<close>

definition analyze_sentiment :: "json \<Rightarrow> py_error + (label \<times> rat)" where
  "analyze_sentiment text =
     (if \<not> truthy text then Inr (Neutral, 0)
      else case text of
        JStr s \<Rightarrow>
          (let total_sentiment_words = positive_count s + negative_count s in
           if total_sentiment_words = 0 then Inr (Neutral, 0)
           else py_bind (py_truediv (positive_count s - negative_count s) total_sentiment_words)
                  (\<lambda>score. Inr (sentiment_of score, py_round score 2)))
      | _ \<Rightarrow> Inl AttributeError)"

subsection \<open>The enrichment pipeline\<close>

definition label_str :: "label \<Rightarrow> string" where
  "label_str l = (case l of Positive \<Rightarrow> ''positive'' | Negative \<Rightarrow> ''negative'' | Neutral \<Rightarrow> ''neutral'')"

text \<open>
  The dict display that builds \<open>enriched_bookmark\<close>: the bookmark's items, with the key
  \<open>customAnalysis\<close> set to the old sub-record's items overlaid with the two new keys.
\<close>

definition enrich :: "json \<Rightarrow> label \<Rightarrow> rat \<Rightarrow> py_error + json" where
  "enrich bookmark sentiment score =
     py_bind (unpack bookmark) (\<lambda>items.
     py_bind (dict_get bookmark ''customAnalysis'' (JObj [])) (\<lambda>custom.
     py_bind (unpack custom) (\<lambda>custom_items.
       Inr (JObj (AList.update ''customAnalysis''
              (JObj (AList.update ''sentimentScore'' (JFloat score)
                      (AList.update ''sentiment'' (JStr (label_str sentiment)) custom_items)))
              items)))))"

text \<open>
  The \<open>for\<close> loop with its two accumulators, \<open>enriched_bookmarks\<close> (appended to) and
  \<open>sentiment_counts\<close> (one counter incremented). An exception leaves the loop.
\<close>

fun enrich_loop ::
  "json list \<Rightarrow> json list \<Rightarrow> (label \<Rightarrow> int) \<Rightarrow> py_error + (json list \<times> (label \<Rightarrow> int))" where
  "enrich_loop [] enriched_bookmarks sentiment_counts = Inr (enriched_bookmarks, sentiment_counts)"
| "enrich_loop (bookmark # rest) enriched_bookmarks sentiment_counts =
     (case dict_get bookmark ''text'' (JStr []) of
        Inl e \<Rightarrow> Inl e
      | Inr text \<Rightarrow>
          (case analyze_sentiment text of
             Inl e \<Rightarrow> Inl e
           | Inr (sentiment, score) \<Rightarrow>
               (let sentiment_counts' = sentiment_counts(sentiment := sentiment_counts sentiment + 1)
                in case enrich bookmark sentiment score of
                     Inl e \<Rightarrow> Inl e
                   | Inr enriched_bookmark \<Rightarrow>
                       enrich_loop rest (enriched_bookmarks @ [enriched_bookmark])
                         sentiment_counts')))"

definition tally_json :: "(label \<Rightarrow> int) \<Rightarrow> json" where
  "tally_json sentiment_counts = JObj [
     (''positive'', JInt (sentiment_counts Positive)),
     (''negative'', JInt (sentiment_counts Negative)),
     (''neutral'', JInt (sentiment_counts Neutral))]"

text \<open>
  The body of \<open>try\<close> up to the value that is printed. The input is the result of
  \<open>json.loads\<close> on what was read, \<open>None\<close> when it does not parse.
\<close>

definition build_output :: "json option \<Rightarrow> py_error + json" where
  "build_output input_data =
     (case input_data of
        None \<Rightarrow> Inl JSONDecodeError
      | Some export_data \<Rightarrow>
          py_bind (dict_get export_data ''bookmarks'' (JArr [])) (\<lambda>bookmarks.
          py_bind (iterate bookmarks) (\<lambda>bookmark_list.
          py_bind (enrich_loop bookmark_list [] (\<lambda>l. 0)) (\<lambda>(enriched_bookmarks, sentiment_counts).
          py_bind (unpack export_data) (\<lambda>items.
          py_bind (dict_get export_data ''metadata'' (JObj [])) (\<lambda>metadata.
          py_bind (unpack metadata) (\<lambda>metadata_items.
            Inr (JObj (AList.update ''metadata''
                   (JObj (AList.update ''sentimentAnalysis'' (tally_json sentiment_counts)
                           metadata_items))
                   (AList.update ''bookmarks'' (JArr enriched_bookmarks) items))))))))))"

text \<open>
  What a run leaves behind: the document printed on standard output (if any), the
  exception reported on the error stream (if any) and the exit status.
\<close>

record outcome =
  stdout :: "json option"
  stderr :: "py_error option"
  exit_status :: int

definition main :: "json option \<Rightarrow> outcome" where
  "main input_data =
     (case build_output input_data of
        Inr output \<Rightarrow> \<lparr>stdout = Some output, stderr = None, exit_status = 0\<rparr>
      | Inl error \<Rightarrow> \<lparr>stdout = None, stderr = Some error, exit_status = 1\<rparr>)"

subsection \<open>Reference notions used to state the properties\<close>

text \<open>
  The tokens as the specification describes them: the maximal runs of elements that
  satisfy a predicate, in order of occurrence.
\<close>

function maximal_runs :: "('a \<Rightarrow> bool) \<Rightarrow> 'a list \<Rightarrow> 'a list list" where
  "maximal_runs P [] = []"
| "maximal_runs P (x # xs) =
     (if P x then (x # takeWhile P xs) # maximal_runs P (dropWhile P xs)
      else maximal_runs P xs)"
  by pat_completeness auto
termination
  by (relation "measure (\<lambda>(P, xs). length xs)") (auto simp: less_Suc_eq_le length_dropWhile_le)

text \<open>Reading a field of a document: \<open>None\<close> when the value is no dict or has no such key.\<close>

fun field :: "json \<Rightarrow> string \<Rightarrow> json option" where
  "field (JObj kvs) k = map_of kvs k"
| "field _ k = None"

text \<open>The sequence the loop runs over, and the elements of an output array.\<close>

definition input_bookmarks :: "json \<Rightarrow> json list" where
  "input_bookmarks export_data =
     (case py_bind (dict_get export_data ''bookmarks'' (JArr [])) iterate of
        Inr bs \<Rightarrow> bs | Inl e \<Rightarrow> [])"

definition output_bookmarks :: "json \<Rightarrow> json list" where
  "output_bookmarks output = (case field output ''bookmarks'' of Some (JArr bs) \<Rightarrow> bs | _ \<Rightarrow> [])"

text \<open>The label and the score that the scorer computes for the text of a bookmark.\<close>

definition scored :: "json \<Rightarrow> (label \<times> rat) option" where
  "scored bookmark =
     (case py_bind (dict_get bookmark ''text'' (JStr [])) analyze_sentiment of
        Inr r \<Rightarrow> Some r | Inl e \<Rightarrow> None)"

text \<open>The number of bookmarks whose computed label is \<open>l\<close>.\<close>

definition count_label :: "label \<Rightarrow> json list \<Rightarrow> int" where
  "count_label l bookmarks =
     int (length (filter (\<lambda>b. map_option fst (scored b) = Some l) bookmarks))"

text \<open>The entry \<open>metadata.sentimentAnalysis.k\<close> of an output document.\<close>

definition tally_entry :: "json \<Rightarrow> string \<Rightarrow> json option" where
  "tally_entry output k =
     Option.bind (field output ''metadata'') (\<lambda>metadata.
     Option.bind (field metadata ''sentimentAnalysis'') (\<lambda>tally. field tally k))"

text \<open>
  The quotient \<open>(p - n) / (p + n)\<close> as an exact rational number, and what it means for a
  number to lie half-way between two integers.
\<close>

definition exact_quotient :: "string \<Rightarrow> rat" where
  "exact_quotient text =
     of_int (positive_count text - negative_count text) /
     of_int (positive_count text + negative_count text)"

definition half_way :: "rat \<Rightarrow> bool" where
  "half_way y = (y - of_int \<lfloor>y\<rfloor> = 1 / 2)"

text \<open>A text with \<open>p\<close> occurrences of a positive and \<open>n\<close> of a negative word.\<close>

definition sample_text :: "nat \<Rightarrow> nat \<Rightarrow> string" where
  "sample_text p n = concat (replicate p ''good '') @ concat (replicate n ''bad '')"

text \<open>
  The enriched copy that one pass of the loop body makes of a bookmark; \<open>None\<close> when the
  pass raises.
\<close>

definition enriched :: "json \<Rightarrow> json option" where
  "enriched bookmark =
     (case scored bookmark of
        None \<Rightarrow> None
      | Some (sentiment, score) \<Rightarrow>
          (case enrich bookmark sentiment score of Inl e \<Rightarrow> None | Inr b \<Rightarrow> Some b))"

text \<open>
  A document with three bookmarks (one with an analysis sub-record that already has a
  sentiment, one without sub-record, one without text), what the script prints for it,
  and a document whose second bookmark has a number as text.
\<close>

definition example_export :: json where
  "example_export = JObj [
     (''bookmarks'', JArr [
        JObj [(''id'', JInt 1), (''text'', JStr ''Great, helpful tool!''),
              (''customAnalysis'', JObj [(''sentiment'', JStr ''negative''),
                                         (''sentimentScore'', JInt (- 1)),
                                         (''category'', JStr ''tools'')])],
        JObj [(''id'', JInt 2), (''text'', JStr ''bad bug''), (''url'', JStr ''https://x.example'')],
        JObj [(''id'', JInt 3)]]),
     (''metadata'', JObj [(''exportedAt'', JStr ''2024-01-01''),
                         (''sentimentAnalysis'', JObj [(''positive'', JInt 9)])]),
     (''version'', JInt 2)]"

definition example_output :: json where
  "example_output = JObj [
     (''bookmarks'', JArr [
        JObj [(''id'', JInt 1), (''text'', JStr ''Great, helpful tool!''),
              (''customAnalysis'', JObj [(''sentiment'', JStr ''positive''),
                                         (''sentimentScore'', JFloat 1),
                                         (''category'', JStr ''tools'')])],
        JObj [(''id'', JInt 2), (''text'', JStr ''bad bug''), (''url'', JStr ''https://x.example''),
              (''customAnalysis'', JObj [(''sentiment'', JStr ''negative''),
                                         (''sentimentScore'', JFloat (- 1))])],
        JObj [(''id'', JInt 3),
              (''customAnalysis'', JObj [(''sentiment'', JStr ''neutral''),
                                         (''sentimentScore'', JFloat 0)])]]),
     (''metadata'', JObj [(''exportedAt'', JStr ''2024-01-01''),
                         (''sentimentAnalysis'', JObj [(''positive'', JInt 1),
                                                      (''negative'', JInt 1),
                                                      (''neutral'', JInt 1)])]),
     (''version'', JInt 2)]"

definition broken_export :: json where
  "broken_export = JObj [
     (''bookmarks'', JArr [JObj [(''text'', JStr ''good'')], JObj [(''text'', JInt 5)]])]"

section \<open>Properties\<close>

subsection \<open>The regular expression finds the maximal runs of word characters\<close>

lemma takeWhile_take_length: "take (length (takeWhile P xs)) xs = takeWhile P xs"
  by (induction xs) auto

lemma dropWhile_drop_length: "drop (length (takeWhile P xs)) xs = dropWhile P xs"
  by (induction xs) auto

lemma word_here_dropWhile: "\<not> word_here (dropWhile is_word_char s)"
  by (induction s) (auto simp: word_here_def)

lemma last_run_is_word:
  "word_here s \<Longrightarrow> is_word_char (s ! (length (takeWhile is_word_char s) - 1))"
proof -
  assume w: "word_here s"
  let ?n = "length (takeWhile is_word_char s)"
  from w obtain c cs where s: "s = c # cs" and c: "is_word_char c"
    by (cases s) (auto simp: word_here_def)
  have pos: "0 < ?n" using s c by simp
  have "s ! (?n - 1) = takeWhile is_word_char s ! (?n - 1)"
    using pos by (simp add: takeWhile_nth)
  moreover have "takeWhile is_word_char s ! (?n - 1) \<in> set (takeWhile is_word_char s)"
    using pos by (intro nth_mem) simp
  ultimately show ?thesis by (auto dest: set_takeWhileD)
qed

lemma match_word_eq:
  "match_word prev s =
     (if \<not> word_before prev \<and> word_here s then Some (length (takeWhile is_word_char s)) else None)"
proof (cases "word_here s")
  case True
  let ?n = "length (takeWhile is_word_char s)"
  from True obtain c cs where s: "s = c # cs" and c: "is_word_char c"
    by (cases s) (auto simp: word_here_def)
  have pos: "0 < ?n" using s c by simp
  then have "Suc 0 \<le> ?n" by linarith
  then have up: "rev [1..<Suc ?n] = ?n # rev [1..<?n]" by (simp only: upt_Suc_append rev_append rev.simps append.simps One_nat_def if_True)
  have "at_boundary (Some (s ! (?n - 1))) (drop ?n s)"
    using last_run_is_word [OF True] word_here_dropWhile [of s]
    by (simp add: at_boundary_def word_before_def dropWhile_drop_length)
  then show ?thesis
    using True unfolding match_word_def up by (simp add: at_boundary_def)
next
  case False
  then have "takeWhile is_word_char s = []"
    by (cases s) (auto simp: word_here_def)
  then show ?thesis using False by (simp add: match_word_def)
qed

lemma findall_words_runs:
  "findall_words prev s =
     (if word_before prev then maximal_runs is_word_char (dropWhile is_word_char s)
      else maximal_runs is_word_char s)"
proof (induction prev s rule: findall_words.induct)
  case (1 prev)
  show ?case by simp
next
  case (2 prev c cs)
  show ?case
  proof (cases "\<not> word_before prev \<and> is_word_char c")
    case True
    define k where "k = length (takeWhile is_word_char cs)"
    have m: "match_word prev (c # cs) = Some (Suc k)"
      using True by (simp add: match_word_eq word_here_def k_def)
    have "is_word_char ((c # cs) ! (length (takeWhile is_word_char (c # cs)) - 1))"
      using True by (intro last_run_is_word) (simp add: word_here_def)
    then have wb: "word_before (Some ((c # cs) ! k))"
      using True by (simp add: word_before_def k_def)
    have dr: "drop k cs = dropWhile is_word_char cs"
      by (simp add: k_def dropWhile_drop_length)
    have tk: "take (Suc k) (c # cs) = c # takeWhile is_word_char cs"
      by (simp add: k_def takeWhile_take_length)
    have "findall_words (Some ((c # cs) ! (Suc k - 1))) (drop (Suc k - 1) cs) =
          (if word_before (Some ((c # cs) ! (Suc k - 1)))
           then maximal_runs is_word_char (dropWhile is_word_char (drop (Suc k - 1) cs))
           else maximal_runs is_word_char (drop (Suc k - 1) cs))"
      by (rule "2.IH"(2) [OF m])
    then have rest: "findall_words (Some ((c # cs) ! k)) (drop k cs) =
          maximal_runs is_word_char (dropWhile is_word_char cs)"
      using wb by (simp add: dr dropWhile_idem)
    have "findall_words prev (c # cs) =
          take (Suc k) (c # cs) # findall_words (Some ((c # cs) ! (Suc k - 1))) (drop (Suc k - 1) cs)"
      by (simp only: findall_words.simps m option.case)
    also have "\<dots> = (c # takeWhile is_word_char cs) #
                        maximal_runs is_word_char (dropWhile is_word_char cs)"
      using rest by (simp only: tk diff_Suc_1)
    also have "\<dots> = maximal_runs is_word_char (c # cs)"
      using True by simp
    finally show ?thesis using True by simp
  next
    case False
    then have m: "match_word prev (c # cs) = None"
      by (auto simp: match_word_eq word_here_def)
    have "findall_words prev (c # cs) = findall_words (Some c) cs" using m by simp
    also have "\<dots> = (if is_word_char c then maximal_runs is_word_char (dropWhile is_word_char cs)
                       else maximal_runs is_word_char cs)"
      using "2.IH"(1) [OF m] by (simp add: word_before_def)
    finally show ?thesis using False by auto
  qed
qed

subsection \<open>Tokens, lower case and counting\<close>

lemma is_word_char_lower [simp]: "is_word_char (lower_char c) = is_word_char c"
proof -
  have "(of_char c :: nat) mod 256 = of_char c" by (rule of_char_mod_256)
  then have "(of_char c :: nat) < 256" by (metis mod_less_divisor zero_less_numeral)
  then show ?thesis
    by (auto simp: is_word_char_def lower_char_def Let_def)
qed

lemma maximal_runs_map:
  "(\<forall>x. P (f x) = P x) \<Longrightarrow> maximal_runs P (map f xs) = map (map f) (maximal_runs P xs)"
proof (induction P xs rule: maximal_runs.induct)
  case (1 P)
  show ?case by simp
next
  case (2 P x xs)
  have c: "P \<circ> f = P" using "2.prems" by (simp add: fun_eq_iff)
  show ?case
    using 2 by (simp add: takeWhile_map dropWhile_map c)
qed

lemma words_of_runs: "words_of text = map lower (maximal_runs is_word_char text)"
proof -
  have "maximal_runs is_word_char (map lower_char text) =
        map (map lower_char) (maximal_runs is_word_char text)"
    by (rule maximal_runs_map) simp
  then show ?thesis
    by (simp add: words_of_def findall_words_runs word_before_def lower_def [abs_def])
qed

lemma count_in_length: "count_in lexicon ws = int (length (filter (\<lambda>w. w \<in> lexicon) ws))"
  unfolding count_in_def by (induction ws) auto

lemma count_in_nonneg: "0 \<le> count_in lexicon ws"
  by (simp add: count_in_length)

lemma count_in_append: "count_in lexicon (us @ vs) = count_in lexicon us + count_in lexicon vs"
  by (simp add: count_in_length)

lemma count_in_replicate:
  "count_in lexicon (replicate m w) = (if w \<in> lexicon then int m else 0)"
  by (simp add: count_in_length)

lemma count_in_zero_iff: "count_in lexicon ws = 0 \<longleftrightarrow> (\<forall>w\<in>set ws. w \<notin> lexicon)"
  by (simp add: count_in_length filter_empty_conv)

lemma maximal_runs_elem:
  "w \<in> set (maximal_runs P xs) \<Longrightarrow> w \<noteq> [] \<and> set w \<subseteq> set xs \<and> (\<forall>x\<in>set w. P x)"
proof (induction P xs rule: maximal_runs.induct)
  case (1 P)
  then show ?case by simp
next
  case (2 P x xs)
  show ?case
  proof (cases "P x")
    case True
    with "2.prems" consider "w = x # takeWhile P xs" | "w \<in> set (maximal_runs P (dropWhile P xs))"
      by auto
    then show ?thesis
    proof cases
      case 1
      then show ?thesis using True by (auto dest: set_takeWhileD)
    next
      case 2
      with "2.IH"(1) [OF True] have "w \<noteq> [] \<and> set w \<subseteq> set (dropWhile P xs) \<and> (\<forall>x\<in>set w. P x)"
        by simp
      then show ?thesis by (auto dest: set_dropWhileD)
    qed
  next
    case False
    with "2.prems" have "w \<in> set (maximal_runs P xs)" by simp
    with "2.IH"(2) [OF False] show ?thesis by auto
  qed
qed

lemma maximal_runs_none: "(\<forall>x\<in>set xs. \<not> P x) \<Longrightarrow> maximal_runs P xs = []"
  by (induction xs) auto

lemma maximal_runs_word_sep:
  assumes "w \<noteq> []" and "\<forall>x\<in>set w. P x" and "\<not> P sep"
  shows "maximal_runs P (w @ sep # rest) = w # maximal_runs P rest"
proof -
  from assms(1) obtain x w' where w: "w = x # w'" by (cases w) auto
  with assms(2) have px: "P x" and pw: "\<forall>y\<in>set w'. P y" by auto
  have "takeWhile P (w' @ sep # rest) = w'"
    using pw assms(3) by (simp add: takeWhile_append2)
  moreover have "dropWhile P (w' @ sep # rest) = sep # rest"
    using pw assms(3) by (simp add: dropWhile_append2)
  ultimately show ?thesis using px assms(3) by (simp add: w)
qed

lemma maximal_runs_replicate:
  assumes "w \<noteq> []" and "\<forall>x\<in>set w. P x" and "\<not> P sep"
  shows "maximal_runs P (concat (replicate m (w @ [sep])) @ rest) = replicate m w @ maximal_runs P rest"
proof (induction m)
  case 0
  show ?case by simp
next
  case (Suc m)
  have "maximal_runs P (concat (replicate (Suc m) (w @ [sep])) @ rest) =
        maximal_runs P (w @ sep # (concat (replicate m (w @ [sep])) @ rest))"
    by simp
  also have "\<dots> = w # maximal_runs P (concat (replicate m (w @ [sep])) @ rest)"
    by (rule maximal_runs_word_sep [OF assms])
  finally show ?case using Suc by simp
qed

subsection \<open>Rounding half to even\<close>

lemma rhe_ge_floor: "\<lfloor>x\<rfloor> \<le> rhe x"
  by (simp add: rhe_def Let_def)

lemma rhe_le_floor: "rhe x \<le> \<lfloor>x\<rfloor> + 1"
  by (simp add: rhe_def Let_def)

lemma rhe_of_int [simp]: "rhe (of_int n) = n"
  by (simp add: rhe_def Let_def)

lemma rhe_error: "\<bar>of_int (rhe x) - x\<bar> \<le> 1 / 2"
proof -
  have "of_int \<lfloor>x\<rfloor> \<le> x" "x < of_int \<lfloor>x\<rfloor> + 1" by linarith+
  then show ?thesis by (auto simp: rhe_def Let_def abs_le_iff)
qed

lemma rhe_unique:
  assumes "of_int m - 1 / 2 < z" and "z < of_int m + 1 / 2"
  shows "rhe z = m"
proof (cases "of_int m \<le> z")
  case True
  with assms have "\<lfloor>z\<rfloor> = m" by (intro floor_unique) auto
  with assms show ?thesis by (simp add: rhe_def Let_def)
next
  case False
  with assms have "\<lfloor>z\<rfloor> = m - 1" by (intro floor_unique) auto
  with assms False show ?thesis by (simp add: rhe_def Let_def)
qed

lemma rhe_mono:
  assumes "x \<le> y"
  shows "rhe x \<le> rhe y"
proof (cases "\<lfloor>x\<rfloor> = \<lfloor>y\<rfloor>")
  case True
  with assms show ?thesis by (auto simp: rhe_def Let_def)
next
  case False
  with assms have "\<lfloor>x\<rfloor> < \<lfloor>y\<rfloor>" using floor_mono [OF assms] by linarith
  then have "rhe x \<le> \<lfloor>y\<rfloor>" using rhe_le_floor [of x] by linarith
  then show ?thesis using rhe_ge_floor [of y] by linarith
qed

lemma rhe_minus: "rhe (- x) = - rhe x"
proof (cases "x = of_int \<lfloor>x\<rfloor>")
  case True
  then have "rhe (- x) = rhe (of_int (- \<lfloor>x\<rfloor>))" by simp
  also have "\<dots> = - \<lfloor>x\<rfloor>" by (rule rhe_of_int)
  also have "\<dots> = - rhe (of_int \<lfloor>x\<rfloor>)" by simp
  finally show ?thesis using True by simp
next
  case False
  define f where "f = \<lfloor>x\<rfloor>"
  have b: "of_int f \<le> x" "x < of_int f + 1" unfolding f_def by linarith+
  with False have lt: "of_int f < x" unfolding f_def by linarith
  have fl: "\<lfloor>- x\<rfloor> = - f - 1"
    using lt b by (intro floor_unique) auto
  have l: "rhe x = (if x - of_int f < 1 / 2 then f else if 1 / 2 < x - of_int f then f + 1
                    else if even f then f else f + 1)"
    by (simp add: rhe_def Let_def f_def)
  have r: "rhe (- x) = (if - x - of_int (- f - 1) < 1 / 2 then - f - 1
                        else if 1 / 2 < - x - of_int (- f - 1) then - f
                        else if even (- f - 1) then - f - 1 else - f)"
    by (simp add: rhe_def Let_def fl)
  show ?thesis
    unfolding l r using lt b by (auto simp: field_simps)
qed

lemma rhe_strict:
  assumes "x - of_int \<lfloor>x\<rfloor> \<noteq> 1 / 2"
  shows "of_int (rhe x) - 1 / 2 < x \<and> x < of_int (rhe x) + 1 / 2"
proof -
  define f where "f = \<lfloor>x\<rfloor>"
  have b: "of_int f \<le> x" "x < of_int f + 1" unfolding f_def by linarith+
  have l: "rhe x = (if x - of_int f < 1 / 2 then f else if 1 / 2 < x - of_int f then f + 1
                    else if even f then f else f + 1)"
    by (simp add: rhe_def Let_def f_def)
  from assms have ne: "x - of_int f \<noteq> 1 / 2" by (simp add: f_def)
  show ?thesis
  proof (cases "x - of_int f < 1 / 2")
    case True
    with b show ?thesis unfolding l by auto
  next
    case False
    with ne have gt: "1 / 2 < x - of_int f" by linarith
    then have "rhe x = f + 1" unfolding l by simp
    with gt b show ?thesis by auto
  qed
qed

subsection \<open>The double nearest to a rational\<close>

lemma bitlen_pos_bounds:
  assumes "0 < (n::int)"
  shows "1 \<le> bitlen n" and "(2::rat) ^ nat (bitlen n - 1) \<le> of_int n"
    and "of_int n + 1 \<le> (2::rat) ^ nat (bitlen n)"
proof -
  from bitlen_bounds [OF assms]
  have lo: "2 ^ nat (bitlen n - 1) \<le> n" and hi: "n < 2 ^ nat (bitlen n)" by auto
  show "1 \<le> bitlen n"
  proof (rule ccontr)
    assume "\<not> 1 \<le> bitlen n"
    then have "nat (bitlen n) = 0" by simp
    with hi assms show False by simp
  qed
  have "(of_int (2 ^ nat (bitlen n - 1)) :: rat) \<le> of_int n"
    using lo by (simp only: of_int_le_iff)
  then show "(2::rat) ^ nat (bitlen n - 1) \<le> of_int n" by simp
  from hi have "n + 1 \<le> 2 ^ nat (bitlen n)" by simp
  then have "(of_int (n + 1) :: rat) \<le> of_int (2 ^ nat (bitlen n))"
    by (simp only: of_int_le_iff)
  then show "of_int n + 1 \<le> (2::rat) ^ nat (bitlen n)" by simp
qed

lemma ilog2_bounds:
  assumes "0 < x"
  shows "2 powi (ilog2 x) \<le> x" and "x < 2 powi (ilog2 x + 1)"
proof -
  have "2 powi (ilog2 x) \<le> x \<and> x < 2 powi (ilog2 x + 1)"
  proof (cases "1 \<le> x")
    case True
    define n where "n = \<lfloor>x\<rfloor>"
    have nx: "of_int n \<le> x" "x < of_int n + 1" unfolding n_def by linarith+
    have npos: "0 < n" using True unfolding n_def by simp
    note b = bitlen_pos_bounds [OF npos]
    have e: "ilog2 x = bitlen n - 1" using True by (simp add: ilog2_def n_def)
    have p1: "(2::rat) powi (bitlen n - 1) = 2 ^ nat (bitlen n - 1)"
      using b(1) by (simp add: power_int_nonneg_exp)
    have p2: "(2::rat) powi (bitlen n - 1 + 1) = 2 ^ nat (bitlen n)"
      using b(1) by (simp add: power_int_nonneg_exp)
    show ?thesis
      unfolding e p1 p2 using b(2,3) nx by linarith
  next
    case False
    define y where "y = 1 / x"
    have ypos: "1 < y" using False assms by (simp add: y_def)
    define m where "m = \<lceil>y\<rceil> - 1"
    have my: "of_int m < y" "y \<le> of_int m + 1" unfolding m_def by linarith+
    have mpos: "0 < m" using ypos unfolding m_def by linarith
    note b = bitlen_pos_bounds [OF mpos]
    have e: "ilog2 x = - bitlen m" using False by (simp add: ilog2_def m_def y_def)
    have p1: "(2::rat) powi (- bitlen m) = 1 / 2 ^ nat (bitlen m)"
      using b(1) by (simp add: power_int_minus_divide power_int_nonneg_exp)
    have "(2::rat) powi (- bitlen m + 1) = 2 powi (- (bitlen m - 1))" by simp
    also have "\<dots> = 1 / 2 ^ nat (bitlen m - 1)"
      using b(1) by (simp only: power_int_minus_divide) (simp add: power_int_nonneg_exp)
    finally have p2: "(2::rat) powi (- bitlen m + 1) = 1 / 2 ^ nat (bitlen m - 1)" .
    have x: "x = 1 / y" using assms by (simp add: y_def)
    have "y \<le> 2 ^ nat (bitlen m)" using my b(3) by linarith
    then have lo: "1 / 2 ^ nat (bitlen m) \<le> 1 / y"
      using ypos by (intro divide_left_mono) auto
    have "(2::rat) ^ nat (bitlen m - 1) < y" using my b(2) by linarith
    then have hi: "1 / y < 1 / 2 ^ nat (bitlen m - 1)"
      using ypos by (intro divide_strict_left_mono mult_pos_pos) auto
    have q1: "(2::rat) powi (ilog2 x) = 1 / 2 ^ nat (bitlen m)" by (simp only: e p1)
    have q2: "(2::rat) powi (ilog2 x + 1) = 1 / 2 ^ nat (bitlen m - 1)" by (simp only: e p2)
    from lo hi have "1 / 2 ^ nat (bitlen m) \<le> x \<and> x < 1 / 2 ^ nat (bitlen m - 1)"
      by (simp only: x [symmetric] simp_thms)
    then show ?thesis by (simp only: q1 q2)
  qed
  then show "2 powi (ilog2 x) \<le> x" and "x < 2 powi (ilog2 x + 1)" by auto
qed

lemma ilog2_mono:
  assumes "0 < x" and "x \<le> y"
  shows "ilog2 x \<le> ilog2 y"
proof (rule ccontr)
  assume "\<not> ilog2 x \<le> ilog2 y"
  then have "ilog2 y + 1 \<le> ilog2 x" by simp
  then have "(2::rat) powi (ilog2 y + 1) \<le> 2 powi (ilog2 x)"
    by (intro power_int_increasing) auto
  moreover have "y < 2 powi (ilog2 y + 1)" using assms by (intro ilog2_bounds) auto
  moreover have "2 powi (ilog2 x) \<le> x" using assms by (intro ilog2_bounds)
  ultimately show False using assms by linarith
qed

lemma ilog2_le_0:
  assumes "0 < x" and "x \<le> 1"
  shows "ilog2 x \<le> 0"
proof (rule ccontr)
  assume "\<not> ilog2 x \<le> 0"
  then have "1 \<le> ilog2 x" by simp
  then have "(2::rat) powi 1 \<le> 2 powi (ilog2 x)"
    by (intro power_int_increasing) auto
  moreover have "2 powi (ilog2 x) \<le> x" using assms by (intro ilog2_bounds)
  ultimately show False using assms by simp
qed

lemma quantum_pos: "0 < quantum x"
  by (simp add: quantum_def)

lemma quantum_minus: "quantum (- x) = quantum x"
  by (simp add: quantum_def)

lemma fl_minus: "fl (- x) = - fl x"
  by (simp add: fl_def quantum_minus rhe_minus)

lemma fl_error: "\<bar>fl x - x\<bar> \<le> quantum x / 2"
proof (cases "x = 0")
  case True
  then show ?thesis using quantum_pos [of x] by (simp add: fl_def)
next
  case False
  define q where "q = quantum x"
  have q: "0 < q" unfolding q_def by (rule quantum_pos)
  have "fl x - x = (of_int (rhe (x / q)) - x / q) * q"
    using False q by (simp add: fl_def q_def field_simps)
  then have "\<bar>fl x - x\<bar> = \<bar>of_int (rhe (x / q)) - x / q\<bar> * q"
    using q by (simp add: abs_mult)
  also have "\<dots> \<le> (1 / 2) * q"
    using q rhe_error [of "x / q"] by (intro mult_right_mono) auto
  finally show ?thesis by (simp add: q_def)
qed

lemma pow2_is_int: "0 \<le> k \<Longrightarrow> (2::rat) powi k = of_int (2 ^ nat k)"
  by (simp add: power_int_nonneg_exp)

lemma scaled_rhe_le:
  assumes "0 < q" and "x \<le> B" and "B / q = of_int N"
  shows "of_int (rhe (x / q)) * q \<le> B"
proof -
  have "x / q \<le> of_int N" using assms by (simp add: divide_right_mono flip: assms(3))
  then have "rhe (x / q) \<le> rhe (of_int N)" by (rule rhe_mono)
  then have "rhe (x / q) \<le> N" by simp
  then have "(of_int (rhe (x / q)) :: rat) \<le> of_int N" by (simp only: of_int_le_iff)
  then have "of_int (rhe (x / q)) * q \<le> of_int N * q"
    using assms(1) by (intro mult_right_mono) auto
  also have "\<dots> = B" using assms(1) by (simp flip: assms(3))
  finally show ?thesis .
qed

lemma scaled_rhe_ge:
  assumes "0 < q" and "B \<le> x" and "B / q = of_int N"
  shows "B \<le> of_int (rhe (x / q)) * q"
proof -
  have "of_int N \<le> x / q" using assms by (simp add: divide_right_mono flip: assms(3))
  then have "rhe (of_int N) \<le> rhe (x / q)" by (rule rhe_mono)
  then have "N \<le> rhe (x / q)" by simp
  then have "(of_int N :: rat) \<le> of_int (rhe (x / q))" by (simp only: of_int_le_iff)
  then have "of_int N * q \<le> of_int (rhe (x / q)) * q"
    using assms(1) by (intro mult_right_mono) auto
  moreover have "of_int N * q = B" using assms(1) by (simp flip: assms(3))
  ultimately show ?thesis by simp
qed

lemma fl_nonneg: "0 \<le> x \<Longrightarrow> 0 \<le> fl x"
proof (cases "x = 0")
  case True
  then show ?thesis by (simp add: fl_def)
next
  case False
  assume "0 \<le> x"
  have "(0::rat) / quantum x = of_int 0" by simp
  from scaled_rhe_ge [OF quantum_pos \<open>0 \<le> x\<close> this] show ?thesis
    using False by (simp add: fl_def)
qed

lemma quantum_exponent_le:
  assumes "x \<noteq> 0" and "\<bar>x\<bar> \<le> 1"
  shows "max (ilog2 \<bar>x\<bar> - 52) (- 1074) \<le> - 52"
  using ilog2_le_0 [of "\<bar>x\<bar>"] assms by simp

lemma quantum_le:
  assumes "x \<noteq> 0" and "\<bar>x\<bar> \<le> 1"
  shows "quantum x \<le> 2 powi (- 52)"
  unfolding quantum_def using quantum_exponent_le [OF assms]
  by (intro power_int_increasing) auto

lemma fl_le_1:
  assumes "0 < x" and "x \<le> 1"
  shows "fl x \<le> 1"
proof -
  define k where "k = max (ilog2 \<bar>x\<bar> - 52) (- 1074)"
  have k: "k \<le> - 52" unfolding k_def using assms by (intro quantum_exponent_le) auto
  have q: "quantum x = 2 powi k" by (simp add: quantum_def k_def)
  have "1 / quantum x = 2 powi (- k)" by (simp add: q power_int_minus_divide)
  also have "\<dots> = of_int (2 ^ nat (- k))" using k by (intro pow2_is_int) simp
  finally have "1 / quantum x = of_int (2 ^ nat (- k))" .
  from scaled_rhe_le [OF quantum_pos assms(2) this] show ?thesis
    using assms by (simp add: fl_def)
qed

lemma fl_abs_le_1:
  assumes "\<bar>x\<bar> \<le> 1"
  shows "\<bar>fl x\<bar> \<le> 1"
proof (cases "0 \<le> x")
  case True
  show ?thesis
  proof (cases "x = 0")
    case True
    then show ?thesis by (simp add: fl_def)
  next
    case False
    with True assms have "0 < x" "x \<le> 1" by auto
    then have "fl x \<le> 1" by (rule fl_le_1)
    moreover have "0 \<le> fl x" using True by (rule fl_nonneg)
    ultimately show ?thesis by simp
  qed
next
  case False
  with assms have "0 < - x" "- x \<le> 1" by auto
  then have "fl (- x) \<le> 1" by (rule fl_le_1)
  moreover have "0 \<le> fl (- x)" using False by (intro fl_nonneg) simp
  ultimately show ?thesis by (simp add: fl_minus)
qed

lemma fl_mono_pos:
  assumes "0 < x" and "x \<le> y"
  shows "fl x \<le> fl y"
proof -
  define ex where "ex = ilog2 x"
  define ey where "ey = ilog2 y"
  define kx where "kx = max (ex - 52) (- 1074)"
  define ky where "ky = max (ey - 52) (- 1074)"
  have ypos: "0 < y" using assms by simp
  have qx: "quantum x = 2 powi kx" using assms by (simp add: quantum_def kx_def ex_def)
  have qy: "quantum y = 2 powi ky" using ypos by (simp add: quantum_def ky_def ey_def)
  have fx: "fl x = of_int (rhe (x / quantum x)) * quantum x" using assms by (simp add: fl_def)
  have fy: "fl y = of_int (rhe (y / quantum y)) * quantum y" using ypos by (simp add: fl_def)
  have e: "ex \<le> ey" unfolding ex_def ey_def using assms by (rule ilog2_mono)
  then have k: "kx \<le> ky" by (simp add: kx_def ky_def)
  show ?thesis
  proof (cases "kx = ky")
    case True
    then have q: "quantum y = quantum x" by (simp add: qx qy)
    have "x / quantum x \<le> y / quantum x"
      using assms quantum_pos [of x] by (simp add: divide_right_mono)
    then have "rhe (x / quantum x) \<le> rhe (y / quantum x)" by (rule rhe_mono)
    then have "(of_int (rhe (x / quantum x)) :: rat) \<le> of_int (rhe (y / quantum x))"
      by (simp only: of_int_le_iff)
    then show ?thesis
      unfolding fx fy q using quantum_pos [of x] by (intro mult_right_mono) auto
  next
    case False
    with k have lt: "kx < ky" by simp
    then have ky': "ky = ey - 52" and exy: "ex + 1 \<le> ey"
      by (auto simp: kx_def ky_def)
    define B :: rat where "B = 2 powi ey"
    have "x < 2 powi (ex + 1)" unfolding ex_def using assms(1) by (rule ilog2_bounds)
    also have "\<dots> \<le> B" unfolding B_def using exy by (intro power_int_increasing) auto
    finally have xB: "x \<le> B" by simp
    have By: "B \<le> y" unfolding B_def ey_def using ypos by (rule ilog2_bounds)
    have "B / quantum x = 2 powi (ey - kx)"
      by (simp add: B_def qx power_int_diff)
    also have "\<dots> = of_int (2 ^ nat (ey - kx))" using lt ky' by (intro pow2_is_int) simp
    finally have ix: "B / quantum x = of_int (2 ^ nat (ey - kx))" .
    have "B / quantum y = 2 powi (ey - ky)"
      by (simp add: B_def qy power_int_diff)
    also have "\<dots> = of_int (2 ^ nat (ey - ky))" using ky' by (intro pow2_is_int) simp
    finally have iy: "B / quantum y = of_int (2 ^ nat (ey - ky))" .
    have "fl x \<le> B"
      unfolding fx by (rule scaled_rhe_le [OF quantum_pos xB ix])
    moreover have "B \<le> fl y"
      unfolding fy by (rule scaled_rhe_ge [OF quantum_pos By iy])
    ultimately show ?thesis by simp
  qed
qed

lemma fl_mono:
  assumes "x \<le> y"
  shows "fl x \<le> fl y"
proof -
  consider "0 < x" | "x \<le> 0" "0 \<le> y" | "y < 0" by linarith
  then show ?thesis
  proof cases
    case 1
    then show ?thesis using assms by (rule fl_mono_pos)
  next
    case 2
    have "0 \<le> fl (- x)" using 2 by (intro fl_nonneg) simp
    then have "fl x \<le> 0" by (simp add: fl_minus)
    moreover have "0 \<le> fl y" using 2 by (intro fl_nonneg)
    ultimately show ?thesis by simp
  next
    case 3
    then have "fl (- y) \<le> fl (- x)" using assms by (intro fl_mono_pos) auto
    then show ?thesis by (simp add: fl_minus)
  qed
qed

subsection \<open>The thresholds on exact quotients\<close>

lemma threshold_value: "threshold = 3602879701896397 / 18014398509481984"
  unfolding threshold_def by code_simp

lemma above_threshold_value:
  "fl (7205759403792795 / 36028797018963968) = 7205759403792795 / 36028797018963968"
  by code_simp

lemma fl_one_fifth: "fl (1 / 5) = threshold"
  by (simp add: threshold_def)

lemma fl_gt_threshold_iff:
  assumes "0 < b" and "b \<le> 2 ^ 52"
  shows "threshold < fl (of_int a / of_int b) \<longleftrightarrow> b < 5 * a"
proof
  assume "b < 5 * a"
  with assms have "7205759403792795 * b \<le> 36028797018963968 * a" by simp
  then have "(of_int (7205759403792795 * b) :: rat) \<le> of_int (36028797018963968 * a)"
    by (simp only: of_int_le_iff)
  then have "(7205759403792795 / 36028797018963968 :: rat) \<le> of_int a / of_int b"
    using assms(1) by (simp add: field_simps)
  then have "fl (7205759403792795 / 36028797018963968) \<le> fl (of_int a / of_int b)"
    by (rule fl_mono)
  then show "threshold < fl (of_int a / of_int b)"
    by (simp add: above_threshold_value threshold_value)
next
  assume gt: "threshold < fl (of_int a / of_int b)"
  show "b < 5 * a"
  proof (rule ccontr)
    assume "\<not> b < 5 * a"
    then have "5 * a \<le> b" by simp
    then have "(of_int (5 * a) :: rat) \<le> of_int b" by (simp only: of_int_le_iff)
    then have "(of_int a / of_int b :: rat) \<le> 1 / 5"
      using assms(1) by (simp add: field_simps)
    then have "fl (of_int a / of_int b) \<le> fl (1 / 5)" by (rule fl_mono)
    with gt show False by (simp add: fl_one_fifth)
  qed
qed

lemma fl_lt_neg_threshold_iff:
  assumes "0 < b" and "b \<le> 2 ^ 52"
  shows "fl (of_int a / of_int b) < - threshold \<longleftrightarrow> 5 * a < - b"
proof -
  have "fl (of_int a / of_int b) < - threshold \<longleftrightarrow> threshold < fl (of_int (- a) / of_int b)"
    using fl_minus [of "of_int a / of_int b"] by auto
  also have "\<dots> \<longleftrightarrow> b < 5 * (- a)" using assms by (rule fl_gt_threshold_iff)
  finally show ?thesis by auto
qed

subsection \<open>The scorer on strings\<close>

lemma sentiment_of_quotient:
  assumes "0 < b" and "b \<le> 2 ^ 52"
  shows "sentiment_of (fl (of_int a / of_int b)) =
           (if b < 5 * a then Positive else if 5 * a < - b then Negative else Neutral)"
  unfolding sentiment_of_def
  by (simp only: fl_gt_threshold_iff [OF assms] fl_lt_neg_threshold_iff [OF assms])

lemma words_of_Nil [simp]: "words_of [] = []"
  by (simp add: words_of_def lower_def)

lemma positive_count_nonneg: "0 \<le> positive_count text"
  by (simp add: positive_count_def count_in_nonneg)

lemma negative_count_nonneg: "0 \<le> negative_count text"
  by (simp add: negative_count_def count_in_nonneg)

lemma analyze_sentiment_str:
  "analyze_sentiment (JStr text) =
     (if positive_count text + negative_count text = 0 then Inr (Neutral, 0)
      else Inr (sentiment_of (fl (of_int (positive_count text - negative_count text) /
                                  of_int (positive_count text + negative_count text))),
                py_round (fl (of_int (positive_count text - negative_count text) /
                              of_int (positive_count text + negative_count text))) 2))"
proof (cases "text = []")
  case True
  then show ?thesis
    by (simp add: analyze_sentiment_def positive_count_def negative_count_def count_in_def)
next
  case False
  then show ?thesis
    by (simp add: analyze_sentiment_def Let_def py_truediv_def py_bind_def)
qed

lemma quotient_abs_le_1:
  assumes "0 \<le> p" and "0 \<le> n" and "0 < p + n"
  shows "\<bar>of_int (p - n) / of_int (p + n) :: rat\<bar> \<le> 1"
proof -
  have "\<bar>p - n\<bar> \<le> p + n" using assms by simp
  then have "(of_int \<bar>p - n\<bar> :: rat) \<le> of_int (p + n)" by (simp only: of_int_le_iff)
  then have "\<bar>of_int (p - n) :: rat\<bar> \<le> of_int (p + n)" by simp
  moreover have "(0::rat) < of_int (p + n)" using assms by simp
  ultimately show ?thesis by (simp add: abs_divide del: of_int_diff of_int_add)
qed

lemma py_round_2_abs_le_1:
  assumes "\<bar>x\<bar> \<le> 1"
  shows "\<bar>py_round x 2\<bar> \<le> 1"
proof -
  from assms have "- 100 \<le> x * 100" "x * 100 \<le> 100" by (auto simp: abs_le_iff)
  then have "rhe (of_int (- 100)) \<le> rhe (x * 100)" "rhe (x * 100) \<le> rhe (of_int 100)"
    by (auto intro!: rhe_mono)
  then have "- 100 \<le> rhe (x * 100)" "rhe (x * 100) \<le> 100"
    by (simp_all only: rhe_of_int)
  then have "(of_int (- 100) :: rat) \<le> of_int (rhe (x * 100))"
    "(of_int (rhe (x * 100)) :: rat) \<le> of_int 100"
    by (simp_all only: of_int_le_iff)
  then have "\<bar>of_int (rhe (x * 100)) / 100 :: rat\<bar> \<le> 1" by (simp add: abs_le_iff)
  then have "\<bar>fl (of_int (rhe (x * 100)) / 100)\<bar> \<le> 1" by (rule fl_abs_le_1)
  then show ?thesis by (simp add: py_round_def round_half_even_dp_def)
qed

text \<open>
  Rounding the double instead of the exact quotient makes no difference to the two
  decimals kept, unless the exact quotient sits half-way between two of them.
\<close>

lemma round_stable:
  assumes b: "0 < b" "b \<le> 2 ^ 45" and ab: "\<bar>a\<bar> \<le> b"
    and nt: "(of_int a / of_int b :: rat) * 100 - of_int \<lfloor>(of_int a / of_int b :: rat) * 100\<rfloor> \<noteq> 1 / 2"
  shows "rhe (fl (of_int a / of_int b) * 100) = rhe ((of_int a / of_int b) * 100)"
proof -
  define x :: rat where "x = of_int a / of_int b"
  define m where "m = rhe (x * 100)"
  have bpos: "(0::rat) < of_int b" using b by simp
  have x1: "\<bar>x\<bar> \<le> 1"
  proof -
    have "(of_int \<bar>a\<bar> :: rat) \<le> of_int b" using ab by (simp only: of_int_le_iff)
    then show ?thesis using bpos by (simp add: x_def abs_divide)
  qed
  have s: "of_int m - 1 / 2 < x * 100" "x * 100 < of_int m + 1 / 2"
    using rhe_strict [of "x * 100"] nt by (auto simp: m_def x_def)
  have lo_eq: "x * 100 - (of_int m - 1 / 2) = of_int (200 * a - (2 * m - 1) * b) / (2 * of_int b)"
    using bpos by (simp add: x_def field_simps)
  have hi_eq: "(of_int m + 1 / 2) - x * 100 = of_int ((2 * m + 1) * b - 200 * a) / (2 * of_int b)"
    using bpos by (simp add: x_def field_simps)
  have gap: "1 / (2 * of_int b) \<le> (of_int N :: rat) / (2 * of_int b)" if "0 < (of_int N :: rat) / (2 * of_int b)" for N :: int
  proof -
    from that bpos have "(0::rat) < of_int N" by (simp add: zero_less_divide_iff)
    then have "1 \<le> N" by simp
    then have "(1::rat) \<le> of_int N" by simp
    then show ?thesis using bpos by (simp add: divide_right_mono)
  qed
  have lo: "1 / (2 * of_int b) \<le> x * 100 - (of_int m - 1 / 2)"
  proof -
    have "0 < x * 100 - (of_int m - 1 / 2)" using s(1) by simp
    then have "0 < (of_int (200 * a - (2 * m - 1) * b) :: rat) / (2 * of_int b)"
      by (simp only: lo_eq)
    then have "1 / (2 * of_int b) \<le> (of_int (200 * a - (2 * m - 1) * b) :: rat) / (2 * of_int b)"
      by (rule gap)
    then show ?thesis by (simp only: lo_eq)
  qed
  have hi: "1 / (2 * of_int b) \<le> (of_int m + 1 / 2) - x * 100"
  proof -
    have "0 < (of_int m + 1 / 2) - x * 100" using s(2) by simp
    then have "0 < (of_int ((2 * m + 1) * b - 200 * a) :: rat) / (2 * of_int b)"
      by (simp only: hi_eq)
    then have "1 / (2 * of_int b) \<le> (of_int ((2 * m + 1) * b - 200 * a) :: rat) / (2 * of_int b)"
      by (rule gap)
    then show ?thesis by (simp only: hi_eq)
  qed
  have "(of_int b :: rat) \<le> of_int (2 ^ 45)" using b by (simp only: of_int_le_iff)
  then have "(1::rat) / (2 * of_int (2 ^ 45)) \<le> 1 / (2 * of_int b)"
    using bpos by (intro divide_left_mono) auto
  then have small: "(1::rat) / 70368744177664 \<le> 1 / (2 * of_int b)" by simp
  have err: "\<bar>fl x - x\<bar> \<le> 1 / 9007199254740992"
  proof (cases "x = 0")
    case True
    then show ?thesis by (simp add: fl_def)
  next
    case False
    have "\<bar>fl x - x\<bar> \<le> quantum x / 2" by (rule fl_error)
    also have "\<dots> \<le> 2 powi (- 52) / 2"
      using quantum_le [OF False x1] by simp
    also have "\<dots> = 1 / 9007199254740992"
      by (simp add: power_int_minus_divide)
    finally show ?thesis .
  qed
  have "fl x * 100 - x * 100 = (fl x - x) * 100" by (simp add: algebra_simps)
  then have "\<bar>fl x * 100 - x * 100\<bar> = \<bar>fl x - x\<bar> * \<bar>100\<bar>"
    by (simp only: abs_mult)
  with err have d: "\<bar>fl x * 100 - x * 100\<bar> \<le> 100 / 9007199254740992" by simp
  have "of_int m - 1 / 2 < fl x * 100 \<and> fl x * 100 < of_int m + 1 / 2"
    using lo hi small d by (simp only: abs_le_iff) linarith
  then have "rhe (fl x * 100) = m" by (intro rhe_unique) auto
  then show ?thesis by (simp add: m_def x_def)
qed

subsection \<open>Counting lexicon hits\<close>

lemma words_of_sample_text:
  "words_of (sample_text p n) = replicate p ''good'' @ replicate n ''bad''"
proof -
  have g: "maximal_runs is_word_char (concat (replicate p (''good'' @ [CHR '' ''])) @ rest) =
           replicate p ''good'' @ maximal_runs is_word_char rest" for rest
    by (rule maximal_runs_replicate) (simp_all add: is_word_char_def)
  have b: "maximal_runs is_word_char (concat (replicate n (''bad'' @ [CHR '' ''])) @ []) =
           replicate n ''bad'' @ maximal_runs is_word_char []"
    by (rule maximal_runs_replicate) (simp_all add: is_word_char_def)
  have "maximal_runs is_word_char (sample_text p n) = replicate p ''good'' @ replicate n ''bad''"
    using g [of "concat (replicate n ''bad '')"] b by (simp add: sample_text_def)
  then show ?thesis
    by (simp add: words_of_runs lower_def lower_char_def)
qed

lemma positive_count_sample_text: "positive_count (sample_text p n) = int p"
  by (simp add: positive_count_def words_of_sample_text count_in_append count_in_replicate
      POSITIVE_WORDS_def)

lemma negative_count_sample_text: "negative_count (sample_text p n) = int n"
  by (simp add: negative_count_def words_of_sample_text count_in_append count_in_replicate
      NEGATIVE_WORDS_def)

lemma analyze_sentiment_words:
  "words_of t1 = words_of t2 \<Longrightarrow> analyze_sentiment (JStr t1) = analyze_sentiment (JStr t2)"
  by (simp add: analyze_sentiment_str positive_count_def negative_count_def)

lemma lexicon_words_start_with_letter:
  "w \<in> POSITIVE_WORDS \<union> NEGATIVE_WORDS \<Longrightarrow> w \<noteq> [] \<and> hd w \<notin> set ''0123456789''"
  by (auto simp: POSITIVE_WORDS_def NEGATIVE_WORDS_def)

lemma lower_char_digit: "c \<in> set ''0123456789'' \<Longrightarrow> lower_char c = c"
  by (auto simp: lower_char_def)

lemma no_hits:
  assumes "\<forall>w\<in>set (words_of text). w \<notin> POSITIVE_WORDS \<and> w \<notin> NEGATIVE_WORDS"
  shows "positive_count text = 0" and "negative_count text = 0"
  using assms by (simp_all add: positive_count_def negative_count_def count_in_zero_iff)

lemma digit_words_no_hits:
  assumes "\<forall>c\<in>set text. is_word_char c \<longrightarrow> c \<in> set ''0123456789''"
  shows "\<forall>w\<in>set (words_of text). w \<notin> POSITIVE_WORDS \<and> w \<notin> NEGATIVE_WORDS"
proof
  fix w assume "w \<in> set (words_of text)"
  then obtain r where r: "r \<in> set (maximal_runs is_word_char text)" and w: "w = lower r"
    by (auto simp: words_of_runs)
  from maximal_runs_elem [OF r]
  have ne: "r \<noteq> []" and sub: "set r \<subseteq> set text" and wc: "\<forall>x\<in>set r. is_word_char x" by auto
  have "hd r \<in> set r" using ne by simp
  then have d: "hd r \<in> set ''0123456789''" using sub wc assms by blast
  have "hd w = lower_char (hd r)" using ne by (simp add: w lower_def hd_map)
  also have "\<dots> = hd r" using d by (rule lower_char_digit)
  finally have "hd w \<in> set ''0123456789''" using d by simp
  then show "w \<notin> POSITIVE_WORDS \<and> w \<notin> NEGATIVE_WORDS"
    using lexicon_words_start_with_letter [of w] by blast
qed

lemma exact_quotient_sample_text:
  "exact_quotient (sample_text p n) = (of_nat p - of_nat n) / (of_nat p + of_nat n)"
  by (simp add: exact_quotient_def positive_count_sample_text negative_count_sample_text)

lemma analyze_sentiment_quotient:
  assumes "positive_count text + negative_count text \<noteq> 0"
  shows "analyze_sentiment (JStr text) =
           Inr (sentiment_of (fl (exact_quotient text)), py_round (fl (exact_quotient text)) 2)"
  using assms by (simp add: analyze_sentiment_str exact_quotient_def)

lemma exact_quotient_abs_le_1:
  assumes "positive_count text + negative_count text \<noteq> 0"
  shows "\<bar>exact_quotient text\<bar> \<le> 1"
proof -
  have "0 < positive_count text + negative_count text"
    using assms positive_count_nonneg [of "text"] negative_count_nonneg [of "text"] by linarith
  then show ?thesis
    unfolding exact_quotient_def
    by (intro quotient_abs_le_1 positive_count_nonneg negative_count_nonneg)
qed

subsection \<open>Claims about the scorer\<close>

text \<open>
  Claim C9: the scorer raises no exception on any string, the empty one and strings
  without a lexicon word included: it always returns a label and a score. The division
  would raise on a zero divisor, but no string reaches it with \<open>p + n = 0\<close>. The scorer
  is a function of its argument alone, so it has no effect besides its result.
\<close>

theorem analyze_sentiment_never_raises:
  "(\<exists>sentiment score. analyze_sentiment (JStr text) = Inr (sentiment, score)) \<and>
   py_truediv (positive_count text - negative_count text) 0 = Inl ZeroDivisionError"
  by (simp add: analyze_sentiment_str py_truediv_def)

theorem analyze_sentiment_never_raises_witness:
  "(\<exists>sentiment score. analyze_sentiment (JStr ''?!'') = Inr (sentiment, score)) \<and>
   py_truediv (positive_count ''?!'' - negative_count ''?!'') 0 = Inl ZeroDivisionError"
  by (rule analyze_sentiment_never_raises)

text \<open>
  Claim C3: a text without lexicon hits (\<open>p + n = 0\<close>) is scored \<open>(neutral, 0.0)\<close>, the
  score being the constant zero. This covers the empty string, a text without word
  characters (punctuation only), a text whose word characters are all digits (numbers
  only) and a text whose words are all outside the lexicon.
\<close>

theorem zero_hits_neutral:
  assumes "text = [] \<or>
           (\<forall>c\<in>set text. \<not> is_word_char c) \<or>
           (\<forall>c\<in>set text. is_word_char c \<longrightarrow> c \<in> set ''0123456789'') \<or>
           (\<forall>w\<in>set (words_of text). w \<notin> POSITIVE_WORDS \<and> w \<notin> NEGATIVE_WORDS) \<or>
           positive_count text + negative_count text = 0"
  shows "positive_count text + negative_count text = 0 \<and>
         analyze_sentiment (JStr text) = Inr (Neutral, 0)"
proof -
  have "positive_count text + negative_count text = 0"
  proof -
    consider (empty) "text = []"
      | (punct) "\<forall>c\<in>set text. \<not> is_word_char c"
      | (digits) "\<forall>c\<in>set text. is_word_char c \<longrightarrow> c \<in> set ''0123456789''"
      | (other) "\<forall>w\<in>set (words_of text). w \<notin> POSITIVE_WORDS \<and> w \<notin> NEGATIVE_WORDS"
      | (zero) "positive_count text + negative_count text = 0"
      using assms by blast
    then show ?thesis
    proof cases
      case empty
      then show ?thesis by (simp add: positive_count_def negative_count_def count_in_def)
    next
      case punct
      then have "words_of text = []" by (simp add: words_of_runs maximal_runs_none)
      then show ?thesis by (simp add: positive_count_def negative_count_def count_in_def)
    next
      case digits
      then show ?thesis using no_hits [OF digit_words_no_hits] by simp
    next
      case other
      then show ?thesis using no_hits by simp
    next
      case zero
      then show ?thesis .
    qed
  qed
  then show ?thesis by (simp add: analyze_sentiment_str)
qed

theorem zero_hits_neutral_witness:
  "analyze_sentiment (JStr '''') = Inr (Neutral, 0) \<and>
   analyze_sentiment (JStr ''?! ... ;-)'') = Inr (Neutral, 0) \<and>
   analyze_sentiment (JStr ''2024: 100 %'') = Inr (Neutral, 0) \<and>
   analyze_sentiment (JStr ''The weather today is mild'') = Inr (Neutral, 0)"
proof -
  have 1: "analyze_sentiment (JStr '''') = Inr (Neutral, 0)"
    using zero_hits_neutral [of "''''"] by simp
  have 2: "analyze_sentiment (JStr ''?! ... ;-)'') = Inr (Neutral, 0)"
    using zero_hits_neutral [of "''?! ... ;-)''"] by (simp add: is_word_char_def)
  have 3: "analyze_sentiment (JStr ''2024: 100 %'') = Inr (Neutral, 0)"
    using zero_hits_neutral [of "''2024: 100 %''"] by (simp add: is_word_char_def)
  have "words_of ''The weather today is mild'' = [''the'', ''weather'', ''today'', ''is'', ''mild'']"
    by code_simp
  then have "\<forall>w\<in>set (words_of ''The weather today is mild''). w \<notin> POSITIVE_WORDS \<and> w \<notin> NEGATIVE_WORDS"
    by (simp add: POSITIVE_WORDS_def NEGATIVE_WORDS_def)
  then have 4: "analyze_sentiment (JStr ''The weather today is mild'') = Inr (Neutral, 0)"
    using zero_hits_neutral [of "''The weather today is mild''"] by blast
  from 1 2 3 4 show ?thesis by blast
qed

text \<open>
  Claim C8: the tokens that the regular expression finds are exactly the maximal runs
  of word characters, every occurrence is counted, and the result depends on the text
  through its tokens only: two texts with the same runs of word characters (or the same
  lower-case tokens) get the same label and score, as \<open>good, good!\<close> and \<open>good good\<close> do.
\<close>

theorem tokens_are_maximal_runs:
  "findall_words None s = maximal_runs is_word_char s \<and>
   words_of s = map lower (maximal_runs is_word_char s) \<and>
   count_in lexicon ws = int (length (filter (\<lambda>w. w \<in> lexicon) ws)) \<and>
   (maximal_runs is_word_char t1 = maximal_runs is_word_char t2 \<longrightarrow>
      analyze_sentiment (JStr t1) = analyze_sentiment (JStr t2)) \<and>
   (words_of t1 = words_of t2 \<longrightarrow> analyze_sentiment (JStr t1) = analyze_sentiment (JStr t2)) \<and>
   analyze_sentiment (JStr ''good, good!'') = analyze_sentiment (JStr ''good good'')"
proof -
  have "words_of ''good, good!'' = words_of ''good good''"
    by (simp add: words_of_runs is_word_char_def)
  then have e: "analyze_sentiment (JStr ''good, good!'') = analyze_sentiment (JStr ''good good'')"
    by (rule analyze_sentiment_words)
  have r: "maximal_runs is_word_char t1 = maximal_runs is_word_char t2 \<longrightarrow>
      analyze_sentiment (JStr t1) = analyze_sentiment (JStr t2)"
    by (auto intro!: analyze_sentiment_words simp: words_of_runs)
  have w: "words_of t1 = words_of t2 \<longrightarrow> analyze_sentiment (JStr t1) = analyze_sentiment (JStr t2)"
    by (auto intro: analyze_sentiment_words)
  have f: "findall_words None s = maximal_runs is_word_char s"
    by (simp add: findall_words_runs word_before_def)
  show ?thesis
    using e r w f words_of_runs [of s] count_in_length [of lexicon ws] by blast
qed

theorem tokens_are_maximal_runs_witness:
  "maximal_runs is_word_char ''Good, good!'' = [''Good'', ''good''] \<and>
   maximal_runs is_word_char ''Good good'' = [''Good'', ''good''] \<and>
   findall_words None ''Good, good!'' = [''Good'', ''good''] \<and>
   words_of ''Good, good!'' = [''good'', ''good''] \<and>
   analyze_sentiment (JStr ''Good, good!'') = analyze_sentiment (JStr ''Good good'')"
proof -
  have 1: "maximal_runs is_word_char ''Good, good!'' = [''Good'', ''good'']"
    by (simp add: is_word_char_def)
  have 2: "maximal_runs is_word_char ''Good good'' = [''Good'', ''good'']"
    by (simp add: is_word_char_def)
  have 3: "map lower [''Good'', ''good''] = [''good'', ''good'']"
    by code_simp
  from 1 2 3 tokens_are_maximal_runs [of "''Good, good!''" _ _ "''Good, good!''" "''Good good''"]
  show ?thesis by simp
qed

lemma sentiment_of_exact:
  assumes "0 < positive_count text + negative_count text"
    and "positive_count text + negative_count text \<le> 2 ^ 52"
  shows "sentiment_of (fl (exact_quotient text)) =
           (if 1 / 5 < exact_quotient text then Positive
            else if exact_quotient text < - (1 / 5) then Negative
            else Neutral)"
proof -
  define a where "a = positive_count text - negative_count text"
  define b where "b = positive_count text + negative_count text"
  have b: "0 < b" "b \<le> 2 ^ 52" using assms by (simp_all add: b_def)
  then have bpos: "(0::rat) < of_int b" by simp
  have q: "exact_quotient text = of_int a / of_int b"
    by (simp add: exact_quotient_def a_def b_def)
  have 1: "(1 / 5 < (of_int a / of_int b :: rat)) = (b < 5 * a)"
  proof -
    have "(1 / 5 < (of_int a / of_int b :: rat)) = ((of_int b :: rat) < of_int (5 * a))"
      using bpos by (simp add: field_simps)
    also have "\<dots> = (b < 5 * a)" by (simp only: of_int_less_iff)
    finally show ?thesis .
  qed
  have 2: "((of_int a / of_int b :: rat) < - (1 / 5)) = (5 * a < - b)"
  proof -
    have "((of_int a / of_int b :: rat) < - (1 / 5)) = ((of_int (5 * a) :: rat) < of_int (- b))"
      using bpos by (simp add: field_simps)
    also have "\<dots> = (5 * a < - b)" by (simp only: of_int_less_iff)
    finally show ?thesis .
  qed
  show ?thesis
    unfolding q by (simp only: sentiment_of_quotient [OF b] 1 2)
qed

lemma py_round_minus: "py_round (- x) ndigits = - py_round x ndigits"
  by (simp add: py_round_def round_half_even_dp_def rhe_minus fl_minus)

lemma score_50_33: "py_round (fl (17 / 83)) 2 = threshold"
  unfolding threshold_def by code_simp

lemma score_3_2: "py_round (fl (1 / 5)) 2 = threshold"
  unfolding threshold_def by code_simp

lemma analyze_sample_50_33:
  "analyze_sentiment (JStr (sample_text 50 33)) = Inr (Positive, threshold)"
proof -
  have "sentiment_of (fl (17 / 83)) = Positive"
    unfolding sentiment_of_def threshold_def by code_simp
  then show ?thesis
    by (simp add: analyze_sentiment_quotient positive_count_sample_text
        negative_count_sample_text exact_quotient_sample_text score_50_33)
qed

text \<open>
  Claim C1, as amended: for a text with \<open>p + n > 0\<close> the label is decided by the score
  before it is rounded to two decimals, the double nearest to \<open>(p - n) / (p + n)\<close>: above
  \<open>0.2\<close> it is positive, below \<open>-0.2\<close> negative, otherwise neutral, and the rounding is
  applied to the reported score only. Up to \<open>2 ^ 52\<close> lexicon hits this is the same as
  comparing the exact quotient with one fifth, the quotients \<open>1/5\<close> and \<open>-1/5\<close>
  themselves being neutral.
\<close>

theorem label_of_unrounded_score:
  assumes "0 < positive_count text + negative_count text"
  shows "analyze_sentiment (JStr text) =
           Inr (sentiment_of (fl (exact_quotient text)), py_round (fl (exact_quotient text)) 2) \<and>
         (positive_count text + negative_count text \<le> 2 ^ 52 \<longrightarrow>
            sentiment_of (fl (exact_quotient text)) =
              (if 1 / 5 < exact_quotient text then Positive
               else if exact_quotient text < - (1 / 5) then Negative
               else Neutral))"
  using assms sentiment_of_exact [of "text"] analyze_sentiment_quotient [of "text"] by simp

theorem label_of_unrounded_score_witness:
  "analyze_sentiment (JStr (sample_text 50 33)) = Inr (Positive, threshold) \<and>
   analyze_sentiment (JStr (sample_text 3 2)) = Inr (Neutral, threshold) \<and>
   analyze_sentiment (JStr (sample_text 2 3)) = Inr (Neutral, - threshold)"
proof -
  have 1: "analyze_sentiment (JStr (sample_text 50 33)) = Inr (Positive, threshold)"
    using label_of_unrounded_score [of "sample_text 50 33"]
    by (simp add: positive_count_sample_text negative_count_sample_text
        exact_quotient_sample_text score_50_33)
  have 2: "analyze_sentiment (JStr (sample_text 3 2)) = Inr (Neutral, threshold)"
    using label_of_unrounded_score [of "sample_text 3 2"]
    by (simp add: positive_count_sample_text negative_count_sample_text
        exact_quotient_sample_text score_3_2)
  have 3: "analyze_sentiment (JStr (sample_text 2 3)) = Inr (Neutral, - threshold)"
    using label_of_unrounded_score [of "sample_text 2 3"] fl_minus [of "1 / 5"]
    by (simp add: positive_count_sample_text negative_count_sample_text
        exact_quotient_sample_text fl_minus py_round_minus score_3_2)
  from 1 2 3 show ?thesis by blast
qed

text \<open>
  The label is not a function of the rounded score: with 50 positive and 33 negative
  words the score \<open>17/83\<close> is above \<open>0.2\<close> and the label is positive, but the reported
  score is \<open>0.2\<close>, for which the thresholds give neutral.
\<close>

theorem label_of_rounded_score_counterexample:
  "positive_count (concat (replicate 50 ''good '') @ concat (replicate 33 ''bad '')) = 50 \<and>
   negative_count (concat (replicate 50 ''good '') @ concat (replicate 33 ''bad '')) = 33 \<and>
   analyze_sentiment (JStr (concat (replicate 50 ''good '') @ concat (replicate 33 ''bad ''))) =
     Inr (Positive, threshold) \<and>
   sentiment_of threshold = Neutral"
proof -
  have "sentiment_of threshold = Neutral"
    by (simp add: sentiment_of_def threshold_value)
  then show ?thesis
    using positive_count_sample_text [of 50 33] negative_count_sample_text [of 50 33]
      analyze_sample_50_33
    by (simp add: sample_text_def)
qed

lemma py_round_stable:
  assumes "0 < positive_count text + negative_count text"
    and "positive_count text + negative_count text \<le> 2 ^ 45"
    and "\<not> half_way (exact_quotient text * 100)"
  shows "py_round (fl (exact_quotient text)) 2 = fl (round_half_even_dp (exact_quotient text) 2)"
proof -
  define a where "a = positive_count text - negative_count text"
  define b where "b = positive_count text + negative_count text"
  have q: "exact_quotient text = of_int a / of_int b"
    by (simp add: exact_quotient_def a_def b_def)
  have b: "0 < b" "b \<le> 2 ^ 45" using assms by (simp_all add: b_def)
  have ab: "\<bar>a\<bar> \<le> b"
    using positive_count_nonneg [of "text"] negative_count_nonneg [of "text"]
    by (simp add: a_def b_def)
  have nt: "(of_int a / of_int b :: rat) * 100 - of_int \<lfloor>(of_int a / of_int b :: rat) * 100\<rfloor> \<noteq> 1 / 2"
    using assms(3) by (simp add: half_way_def q)
  have "rhe (fl (of_int a / of_int b) * 100) = rhe ((of_int a / of_int b) * 100)"
    by (rule round_stable [OF b ab nt])
  then show ?thesis
    by (simp add: py_round_def round_half_even_dp_def q)
qed

text \<open>
  Claim C7, as amended: the score lies between \<open>-1\<close> and \<open>1\<close>. With \<open>p + n > 0\<close> it is
  \<open>round\<close> of the double nearest to \<open>(p - n) / (p + n)\<close>: that double rounded half-even to
  two decimals, as a double again. Up to \<open>2 ^ 45\<close> lexicon hits this is the exact quotient
  rounded half-even to two decimals (as a double), unless the exact quotient lies
  half-way between two numbers of two decimals.
\<close>

theorem score_range_and_rounding:
  assumes "analyze_sentiment (JStr text) = Inr (sentiment, score)"
  shows "- 1 \<le> score \<and> score \<le> 1 \<and>
         (0 < positive_count text + negative_count text \<longrightarrow>
            score = py_round (fl (exact_quotient text)) 2 \<and>
            (positive_count text + negative_count text \<le> 2 ^ 45 \<and>
             \<not> half_way (exact_quotient text * 100) \<longrightarrow>
               score = fl (round_half_even_dp (exact_quotient text) 2)))"
proof (cases "positive_count text + negative_count text = 0")
  case True
  with assms show ?thesis by (simp add: analyze_sentiment_str)
next
  case False
  with assms have s: "score = py_round (fl (exact_quotient text)) 2"
    by (simp add: analyze_sentiment_quotient)
  have pos: "0 < positive_count text + negative_count text"
    using False positive_count_nonneg [of "text"] negative_count_nonneg [of "text"] by linarith
  have "\<bar>fl (exact_quotient text)\<bar> \<le> 1"
    using False by (intro fl_abs_le_1 exact_quotient_abs_le_1)
  then have "\<bar>score\<bar> \<le> 1" unfolding s by (rule py_round_2_abs_le_1)
  then have r: "- 1 \<le> score \<and> score \<le> 1" by (simp add: abs_le_iff)
  show ?thesis
    using r s py_round_stable [OF pos] by blast
qed

theorem score_range_and_rounding_witness:
  "- 1 \<le> threshold \<and> threshold \<le> 1 \<and>
   analyze_sentiment (JStr (sample_text 50 33)) = Inr (Positive, threshold) \<and>
   threshold = py_round (fl (17 / 83)) 2 \<and>
   threshold = fl (round_half_even_dp (17 / 83) 2)"
proof -
  have a: "analyze_sentiment (JStr (sample_text 50 33)) = Inr (Positive, threshold)"
    by (rule analyze_sample_50_33)
  have h: "\<not> half_way ((17 / 83) * 100)"
    unfolding half_way_def by code_simp
  from score_range_and_rounding [OF a] h a show ?thesis
    by (simp add: positive_count_sample_text negative_count_sample_text
        exact_quotient_sample_text)
qed

text \<open>
  At an exact quotient half-way between two numbers of two decimals the double decides:
  with 41 positive and 39 negative words the quotient is \<open>0.025\<close>, half-even rounding
  gives \<open>0.02\<close>, and the script reports \<open>0.03\<close>, since the double nearest to \<open>0.025\<close>
  is above it.
\<close>

theorem half_even_of_exact_quotient_counterexample:
  "positive_count (concat (replicate 41 ''good '') @ concat (replicate 39 ''bad '')) = 41 \<and>
   negative_count (concat (replicate 41 ''good '') @ concat (replicate 39 ''bad '')) = 39 \<and>
   analyze_sentiment (JStr (concat (replicate 41 ''good '') @ concat (replicate 39 ''bad ''))) =
     Inr (Neutral, fl (3 / 100)) \<and>
   round_half_even_dp ((41 - 39) / (41 + 39)) 2 = 2 / 100 \<and>
   fl (3 / 100) \<noteq> 2 / 100 \<and>
   fl (3 / 100) \<noteq> fl (2 / 100)"
proof -
  have l: "sentiment_of (fl (1 / 40)) = Neutral"
    unfolding sentiment_of_def threshold_def by code_simp
  have r: "py_round (fl (1 / 40)) 2 = fl (3 / 100)"
    by code_simp
  have "analyze_sentiment (JStr (sample_text 41 39)) = Inr (Neutral, fl (3 / 100))"
    by (simp add: analyze_sentiment_quotient positive_count_sample_text
        negative_count_sample_text exact_quotient_sample_text l r)
  moreover have "round_half_even_dp ((41 - 39) / (41 + 39)) 2 = 2 / 100"
    by code_simp
  moreover have "fl (3 / 100) \<noteq> 2 / 100"
    by code_simp
  moreover have "fl (3 / 100) \<noteq> fl (2 / 100)"
    by code_simp
  ultimately show ?thesis
    using positive_count_sample_text [of 41 39] negative_count_sample_text [of 41 39]
    by (simp add: sample_text_def)
qed

subsection \<open>The loop and the dict displays\<close>

lemma map_of_update: "map_of (AList.update k v al) k' = (if k' = k then Some v else map_of al k')"
  by (simp add: update_conv')

lemma enrich_JObj:
  "enrich (JObj items) l s =
     (case (case map_of items ''customAnalysis'' of Some v \<Rightarrow> v | None \<Rightarrow> JObj []) of
        JObj custom_items \<Rightarrow>
          Inr (JObj (AList.update ''customAnalysis''
                 (JObj (AList.update ''sentimentScore'' (JFloat s)
                         (AList.update ''sentiment'' (JStr (label_str l)) custom_items)))
                 items))
      | _ \<Rightarrow> Inl TypeError)"
  by (simp add: enrich_def py_bind_def split: json.splits option.splits)

lemma enrich_not_JObj: "(\<forall>items. b \<noteq> JObj items) \<Longrightarrow> enrich b l s = Inl TypeError"
  by (cases b) (simp_all add: enrich_def py_bind_def)

lemma enrich_fields:
  assumes "enrich b l s = Inr e"
  obtains custom' where
    "\<And>k. k \<noteq> ''customAnalysis'' \<Longrightarrow> field e k = field b k"
    and "field e ''customAnalysis'' = Some custom'"
    and "field custom' ''sentiment'' = Some (JStr (label_str l))"
    and "field custom' ''sentimentScore'' = Some (JFloat s)"
    and "\<And>custom k. field b ''customAnalysis'' = Some custom \<Longrightarrow>
           k \<noteq> ''sentiment'' \<Longrightarrow> k \<noteq> ''sentimentScore'' \<Longrightarrow>
           field custom' k = field custom k"
proof -
  from assms obtain items where b: "b = JObj items"
    using enrich_not_JObj [of b l s] by auto
  define old where "old = (case map_of items ''customAnalysis'' of Some v \<Rightarrow> v | None \<Rightarrow> JObj [])"
  from assms obtain custom_items where old: "old = JObj custom_items"
    unfolding b enrich_JObj old_def [symmetric] by (cases old) simp_all
  define new where "new = JObj (AList.update ''sentimentScore'' (JFloat s)
                         (AList.update ''sentiment'' (JStr (label_str l)) custom_items))"
  have e: "e = JObj (AList.update ''customAnalysis'' new items)"
    using assms unfolding b enrich_JObj old_def [symmetric] old new_def by simp
  have 1: "field e k = field b k" if "k \<noteq> ''customAnalysis''" for k
    using that by (simp add: e b map_of_update)
  have 2: "field e ''customAnalysis'' = Some new"
    by (simp add: e map_of_update)
  have 3: "field new ''sentiment'' = Some (JStr (label_str l))"
    "field new ''sentimentScore'' = Some (JFloat s)"
    by (simp_all add: new_def map_of_update)
  have 4: "field new k = field custom k"
    if c: "field b ''customAnalysis'' = Some custom"
      and k: "k \<noteq> ''sentiment''" "k \<noteq> ''sentimentScore''" for custom k
  proof -
    from c have "old = custom" by (simp add: b old_def)
    with old have "custom = JObj custom_items" by simp
    then show ?thesis
      using k by (simp add: new_def map_of_update)
  qed
  from 1 2 3 4 show thesis by (rule that)
qed

lemma enrich_loop_unscored:
  "scored b = None \<Longrightarrow> \<exists>e. enrich_loop (b # rest) acc cnt = Inl e"
  by (auto simp: scored_def py_bind_def split: sum.splits)

lemma enrich_loop_scored:
  "scored b = Some (l, s) \<Longrightarrow>
     enrich_loop (b # rest) acc cnt =
       (case enrich b l s of
          Inl e \<Rightarrow> Inl e
        | Inr e \<Rightarrow> enrich_loop rest (acc @ [e]) (cnt(l := cnt l + 1)))"
  by (auto simp: scored_def py_bind_def Let_def split: sum.splits)

lemma count_label_Nil [simp]: "count_label l [] = 0"
  by (simp add: count_label_def)

lemma count_label_Cons:
  "count_label l (b # bs) =
     (if map_option fst (scored b) = Some l then 1 else 0) + count_label l bs"
  by (simp add: count_label_def)

lemma enrich_loop_success:
  "enrich_loop bs acc cnt = Inr (out, cnt') \<Longrightarrow>
     \<exists>es. out = acc @ es \<and> map enriched bs = map Some es \<and>
          cnt' = (\<lambda>l. cnt l + count_label l bs)"
proof (induction bs arbitrary: acc cnt)
  case Nil
  then show ?case by simp
next
  case (Cons b bs)
  from Cons.prems obtain l s where sc: "scored b = Some (l, s)"
    using enrich_loop_unscored [of b bs acc cnt] by (cases "scored b") auto
  from Cons.prems obtain e where en: "enrich b l s = Inr e"
    and rest: "enrich_loop bs (acc @ [e]) (cnt(l := cnt l + 1)) = Inr (out, cnt')"
    unfolding enrich_loop_scored [OF sc] by (auto split: sum.splits)
  from Cons.IH [OF rest] obtain es where es: "out = (acc @ [e]) @ es"
    "map enriched bs = map Some es"
    "cnt' = (\<lambda>l'. (cnt(l := cnt l + 1)) l' + count_label l' bs)"
    by blast
  have "enriched b = Some e" using sc en by (simp add: enriched_def)
  then have "map enriched (b # bs) = map Some (e # es)" using es(2) by simp
  moreover have "out = acc @ (e # es)" using es(1) by simp
  moreover have "cnt' = (\<lambda>l'. cnt l' + count_label l' (b # bs))"
    unfolding es(3) using sc by (auto simp: count_label_Cons fun_eq_iff)
  ultimately show ?case by blast
qed

lemma enrich_loop_failure:
  "b \<in> set bs \<Longrightarrow> enriched b = None \<Longrightarrow> \<exists>e. enrich_loop bs acc cnt = Inl e"
proof (induction bs arbitrary: acc cnt)
  case Nil
  then show ?case by simp
next
  case (Cons x bs)
  show ?case
  proof (cases "scored x")
    case None
    then show ?thesis by (rule enrich_loop_unscored)
  next
    case (Some r)
    obtain l s where r: "r = (l, s)" by (cases r)
    have sc: "scored x = Some (l, s)" using Some r by simp
    show ?thesis
    proof (cases "enrich x l s")
      case (Inl e)
      then show ?thesis
        unfolding enrich_loop_scored [OF sc] by simp
    next
      case (Inr e)
      then have "enriched x = Some e" using sc by (simp add: enriched_def)
      with Cons.prems have "b \<in> set bs" by auto
      from Cons.IH [OF this Cons.prems(2)] show ?thesis
        unfolding enrich_loop_scored [OF sc] Inr by simp
    qed
  qed
qed

lemma enrich_loop_total:
  "(\<forall>b\<in>set bs. enriched b \<noteq> None) \<Longrightarrow> \<exists>r. enrich_loop bs acc cnt = Inr r"
proof (induction bs arbitrary: acc cnt)
  case Nil
  then show ?case by simp
next
  case (Cons x bs)
  then obtain e where "enriched x = Some e" by auto
  then obtain l s where sc: "scored x = Some (l, s)" and en: "enrich x l s = Inr e"
    by (auto simp: enriched_def split: option.splits sum.splits)
  have "\<exists>r. enrich_loop bs (acc @ [e]) (cnt(l := cnt l + 1)) = Inr r"
    using Cons.prems by (intro Cons.IH) simp
  then show ?case
    unfolding enrich_loop_scored [OF sc] en by simp
qed

lemma count_label_total:
  "(\<forall>b\<in>set bs. scored b \<noteq> None) \<Longrightarrow>
     count_label Positive bs + count_label Negative bs + count_label Neutral bs = int (length bs)"
proof (induction bs)
  case Nil
  show ?case by simp
next
  case (Cons b bs)
  then obtain l s where "scored b = Some (l, s)" by auto
  then show ?case
    using Cons by (cases l) (simp_all add: count_label_Cons)
qed

subsection \<open>A whole run\<close>

lemma example_run: "build_output (Some example_export) = Inr example_output"
  by code_simp

lemma broken_run: "build_output (Some broken_export) = Inl AttributeError"
  by code_simp

lemma build_output_not_JObj:
  "(\<forall>items. export_data \<noteq> JObj items) \<Longrightarrow> build_output (Some export_data) = Inl AttributeError"
  by (cases export_data) (simp_all add: build_output_def py_bind_def)

lemma input_bookmarks_JObj:
  "input_bookmarks (JObj items) =
     (case iterate (case map_of items ''bookmarks'' of Some v \<Rightarrow> v | None \<Rightarrow> JArr []) of
        Inr bs \<Rightarrow> bs | Inl e \<Rightarrow> [])"
  by (simp add: input_bookmarks_def py_bind_def)

lemma build_output_JObj:
  "build_output (Some (JObj items)) =
     (case iterate (case map_of items ''bookmarks'' of Some v \<Rightarrow> v | None \<Rightarrow> JArr []) of
        Inl e \<Rightarrow> Inl e
      | Inr bs \<Rightarrow>
          (case enrich_loop bs [] (\<lambda>l. 0) of
             Inl e \<Rightarrow> Inl e
           | Inr (es, cnt) \<Rightarrow>
               (case unpack (case map_of items ''metadata'' of Some v \<Rightarrow> v | None \<Rightarrow> JObj []) of
                  Inl e \<Rightarrow> Inl e
                | Inr meta_items \<Rightarrow>
                    Inr (JObj (AList.update ''metadata''
                           (JObj (AList.update ''sentimentAnalysis'' (tally_json cnt) meta_items))
                           (AList.update ''bookmarks'' (JArr es) items))))))"
  by (simp add: build_output_def py_bind_def split: sum.splits prod.splits)

lemma build_output_success:
  assumes "build_output (Some export_data) = Inr output"
  obtains items meta_items es where
    "export_data = JObj items"
    and "map enriched (input_bookmarks export_data) = map Some es"
    and "output = JObj (AList.update ''metadata''
           (JObj (AList.update ''sentimentAnalysis''
                   (tally_json (\<lambda>l. count_label l (input_bookmarks export_data))) meta_items))
           (AList.update ''bookmarks'' (JArr es) items))"
proof -
  from assms obtain items where d: "export_data = JObj items"
    using build_output_not_JObj [of export_data] by auto
  define bs where "bs = input_bookmarks export_data"
  from assms obtain es cnt meta_items where
    it: "iterate (case map_of items ''bookmarks'' of Some v \<Rightarrow> v | None \<Rightarrow> JArr []) = Inr bs"
    and loop: "enrich_loop bs [] (\<lambda>l. 0) = Inr (es, cnt)"
    and out: "output = JObj (AList.update ''metadata''
           (JObj (AList.update ''sentimentAnalysis'' (tally_json cnt) meta_items))
           (AList.update ''bookmarks'' (JArr es) items))"
    unfolding d build_output_JObj bs_def input_bookmarks_JObj
    by (auto split: sum.splits prod.splits)
  from enrich_loop_success [OF loop]
  have "map enriched bs = map Some es" and "cnt = (\<lambda>l. count_label l bs)" by auto
  with d out that show thesis unfolding bs_def by blast
qed

lemma main_stdout: "stdout (main input_data) = Some output \<longleftrightarrow> build_output input_data = Inr output"
  by (simp add: main_def split: sum.splits)

lemma main_failure:
  "build_output input_data = Inl e \<Longrightarrow> main input_data = \<lparr>stdout = None, stderr = Some e, exit_status = 1\<rparr>"
  by (simp add: main_def)

lemma main_exit_status:
  "exit_status (main input_data) \<noteq> 0 \<longleftrightarrow> (\<exists>e. build_output input_data = Inl e)"
  by (simp add: main_def split: sum.splits)

lemma output_bookmarks_eq:
  "output_bookmarks (JObj (AList.update ''metadata'' m (AList.update ''bookmarks'' (JArr es) items))) = es"
  by (simp add: output_bookmarks_def map_of_update)

lemma enriched_Some:
  "enriched b = Some e \<longleftrightarrow> (\<exists>l s. scored b = Some (l, s) \<and> enrich b l s = Inr e)"
  by (auto simp: enriched_def split: option.splits sum.splits)

lemma enriched_not_JObj: "(\<forall>items. b \<noteq> JObj items) \<Longrightarrow> enriched b = None"
  by (cases b) (simp_all add: enriched_def scored_def py_bind_def)

lemma map_Some_nth:
  assumes "map f xs = map Some ys"
  shows "length ys = length xs" and "i < length xs \<Longrightarrow> f (xs ! i) = Some (ys ! i)"
proof -
  show l: "length ys = length xs" using assms by (metis length_map)
  assume "i < length xs"
  then have "map f xs ! i = f (xs ! i)" "map Some ys ! i = Some (ys ! i)" using l by simp_all
  then show "f (xs ! i) = Some (ys ! i)" using assms by simp
qed

lemma build_output_bookmarks:
  assumes "build_output (Some export_data) = Inr output"
  shows "map enriched (input_bookmarks export_data) = map Some (output_bookmarks output)"
proof -
  from build_output_success [OF assms] obtain items meta_items es where
    "map enriched (input_bookmarks export_data) = map Some es"
    "output = JObj (AList.update ''metadata''
           (JObj (AList.update ''sentimentAnalysis''
                   (tally_json (\<lambda>l. count_label l (input_bookmarks export_data))) meta_items))
           (AList.update ''bookmarks'' (JArr es) items))"
    by blast
  then show ?thesis by (simp add: output_bookmarks_eq)
qed

lemma example_main: "stdout (main (Some example_export)) = Some example_output"
  by (simp add: main_stdout example_run)

lemma example_input_bookmarks: "input_bookmarks example_export = [
        JObj [(''id'', JInt 1), (''text'', JStr ''Great, helpful tool!''),
              (''customAnalysis'', JObj [(''sentiment'', JStr ''negative''),
                                         (''sentimentScore'', JInt (- 1)),
                                         (''category'', JStr ''tools'')])],
        JObj [(''id'', JInt 2), (''text'', JStr ''bad bug''), (''url'', JStr ''https://x.example'')],
        JObj [(''id'', JInt 3)]]"
  by (simp add: input_bookmarks_def example_export_def py_bind_def)

lemma example_output_bookmarks: "output_bookmarks example_output = [
        JObj [(''id'', JInt 1), (''text'', JStr ''Great, helpful tool!''),
              (''customAnalysis'', JObj [(''sentiment'', JStr ''positive''),
                                         (''sentimentScore'', JFloat 1),
                                         (''category'', JStr ''tools'')])],
        JObj [(''id'', JInt 2), (''text'', JStr ''bad bug''), (''url'', JStr ''https://x.example''),
              (''customAnalysis'', JObj [(''sentiment'', JStr ''negative''),
                                         (''sentimentScore'', JFloat (- 1))])],
        JObj [(''id'', JInt 3),
              (''customAnalysis'', JObj [(''sentiment'', JStr ''neutral''),
                                         (''sentimentScore'', JFloat 0)])]]"
  by (simp add: output_bookmarks_def example_output_def)

subsection \<open>Claims about the enrichment pipeline\<close>

text \<open>
  Claim C6: when a run prints a document, its array \<open>bookmarks\<close> has as many elements as
  the input had bookmarks, and the element at each position is the enriched copy of the
  input bookmark at that position: nothing is reordered, inserted or dropped.
\<close>

theorem bookmark_order_preserved:
  assumes "stdout (main (Some export_data)) = Some output"
  shows "length (output_bookmarks output) = length (input_bookmarks export_data) \<and>
         (\<forall>i<length (input_bookmarks export_data).
            enriched (input_bookmarks export_data ! i) = Some (output_bookmarks output ! i))"
proof -
  from assms have "build_output (Some export_data) = Inr output" by (simp add: main_stdout)
  then have "map enriched (input_bookmarks export_data) = map Some (output_bookmarks output)"
    by (rule build_output_bookmarks)
  from map_Some_nth [OF this] show ?thesis by blast
qed

theorem bookmark_order_preserved_witness:
  "length (output_bookmarks example_output) = 3 \<and>
   enriched (input_bookmarks example_export ! 0) = Some (output_bookmarks example_output ! 0) \<and>
   enriched (input_bookmarks example_export ! 1) = Some (output_bookmarks example_output ! 1) \<and>
   enriched (input_bookmarks example_export ! 2) = Some (output_bookmarks example_output ! 2)"
proof -
  from bookmark_order_preserved [OF example_main]
  have l: "length (output_bookmarks example_output) = length (input_bookmarks example_export)"
    and a: "\<And>i. i < length (input_bookmarks example_export) \<Longrightarrow>
            enriched (input_bookmarks example_export ! i) = Some (output_bookmarks example_output ! i)"
    by blast+
  have n: "length (input_bookmarks example_export) = 3"
    by (simp add: example_input_bookmarks)
  from l a [of 0] a [of 1] a [of 2] show ?thesis by (simp add: n)
qed

text \<open>
  Claim C2: when a run prints a document, each of the three entries of
  \<open>metadata.sentimentAnalysis\<close> is the number of input bookmarks whose computed label is
  that label, and the three numbers add up to the number of input bookmarks.
\<close>

theorem tally_counts_labels:
  assumes "stdout (main (Some export_data)) = Some output"
  shows "tally_entry output ''positive'' = Some (JInt (count_label Positive (input_bookmarks export_data))) \<and>
         tally_entry output ''negative'' = Some (JInt (count_label Negative (input_bookmarks export_data))) \<and>
         tally_entry output ''neutral'' = Some (JInt (count_label Neutral (input_bookmarks export_data))) \<and>
         count_label Positive (input_bookmarks export_data) +
         count_label Negative (input_bookmarks export_data) +
         count_label Neutral (input_bookmarks export_data) =
           int (length (input_bookmarks export_data))"
proof -
  from assms have b: "build_output (Some export_data) = Inr output" by (simp add: main_stdout)
  from build_output_success [OF b] obtain items meta_items es where
    en: "map enriched (input_bookmarks export_data) = map Some es"
    and out: "output = JObj (AList.update ''metadata''
           (JObj (AList.update ''sentimentAnalysis''
                   (tally_json (\<lambda>l. count_label l (input_bookmarks export_data))) meta_items))
           (AList.update ''bookmarks'' (JArr es) items))"
    by blast
  have t: "tally_entry output k =
           field (tally_json (\<lambda>l. count_label l (input_bookmarks export_data))) k" for k
    by (simp add: out tally_entry_def map_of_update)
  have "\<forall>b\<in>set (input_bookmarks export_data). scored b \<noteq> None"
  proof
    fix b assume "b \<in> set (input_bookmarks export_data)"
    then have "enriched b \<in> set (map enriched (input_bookmarks export_data))" by simp
    then have "enriched b \<noteq> None" unfolding en by auto
    then show "scored b \<noteq> None" by (auto simp: enriched_def split: option.splits)
  qed
  then have "count_label Positive (input_bookmarks export_data) +
         count_label Negative (input_bookmarks export_data) +
         count_label Neutral (input_bookmarks export_data) =
           int (length (input_bookmarks export_data))"
    by (rule count_label_total)
  then show ?thesis by (simp add: t tally_json_def)
qed

theorem tally_counts_labels_witness:
  "tally_entry example_output ''positive'' = Some (JInt 1) \<and>
   tally_entry example_output ''negative'' = Some (JInt 1) \<and>
   tally_entry example_output ''neutral'' = Some (JInt 1) \<and>
   count_label Positive (input_bookmarks example_export) = 1 \<and>
   count_label Negative (input_bookmarks example_export) = 1 \<and>
   count_label Neutral (input_bookmarks example_export) = 1 \<and>
   length (input_bookmarks example_export) = 3"
proof -
  have "tally_entry example_output ''positive'' = Some (JInt 1) \<and>
        tally_entry example_output ''negative'' = Some (JInt 1) \<and>
        tally_entry example_output ''neutral'' = Some (JInt 1)"
    by (simp add: tally_entry_def example_output_def)
  moreover have "length (input_bookmarks example_export) = 3"
    by (simp add: example_input_bookmarks)
  ultimately show ?thesis
    using tally_counts_labels [OF example_main] by simp
qed

text \<open>
  Claim C4: when a run prints a document, every top-level field other than \<open>bookmarks\<close>
  and \<open>metadata\<close> and every field of every bookmark other than \<open>customAnalysis\<close> has
  the value it had in the input (and is absent if it was absent), and a sub-record
  \<open>customAnalysis\<close> that was there keeps every key other than \<open>sentiment\<close> and
  \<open>sentimentScore\<close> with its value.
\<close>

theorem untouched_fields_preserved:
  assumes "stdout (main (Some export_data)) = Some output"
  shows "(\<forall>k. k \<noteq> ''bookmarks'' \<and> k \<noteq> ''metadata'' \<longrightarrow> field output k = field export_data k) \<and>
         (\<forall>i<length (input_bookmarks export_data).
            (\<forall>k. k \<noteq> ''customAnalysis'' \<longrightarrow>
               field (output_bookmarks output ! i) k = field (input_bookmarks export_data ! i) k) \<and>
            (\<forall>custom. field (input_bookmarks export_data ! i) ''customAnalysis'' = Some custom \<longrightarrow>
               (\<exists>custom'. field (output_bookmarks output ! i) ''customAnalysis'' = Some custom' \<and>
                  (\<forall>k. k \<noteq> ''sentiment'' \<and> k \<noteq> ''sentimentScore'' \<longrightarrow>
                     field custom' k = field custom k))))"
proof -
  from assms have b: "build_output (Some export_data) = Inr output" by (simp add: main_stdout)
  from build_output_success [OF b] obtain items meta_items es where
    d: "export_data = JObj items"
    and out: "output = JObj (AList.update ''metadata''
           (JObj (AList.update ''sentimentAnalysis''
                   (tally_json (\<lambda>l. count_label l (input_bookmarks export_data))) meta_items))
           (AList.update ''bookmarks'' (JArr es) items))"
    by blast
  have top: "\<forall>k. k \<noteq> ''bookmarks'' \<and> k \<noteq> ''metadata'' \<longrightarrow> field output k = field export_data k"
    by (simp add: out d map_of_update)
  have en: "map enriched (input_bookmarks export_data) = map Some (output_bookmarks output)"
    using b by (rule build_output_bookmarks)
  have each: "(\<forall>k. k \<noteq> ''customAnalysis'' \<longrightarrow>
               field (output_bookmarks output ! i) k = field (input_bookmarks export_data ! i) k) \<and>
            (\<forall>custom. field (input_bookmarks export_data ! i) ''customAnalysis'' = Some custom \<longrightarrow>
               (\<exists>custom'. field (output_bookmarks output ! i) ''customAnalysis'' = Some custom' \<and>
                  (\<forall>k. k \<noteq> ''sentiment'' \<and> k \<noteq> ''sentimentScore'' \<longrightarrow>
                     field custom' k = field custom k)))"
    if i: "i < length (input_bookmarks export_data)" for i
  proof -
    from map_Some_nth(2) [OF en i]
    obtain l s where e: "enrich (input_bookmarks export_data ! i) l s = Inr (output_bookmarks output ! i)"
      by (auto simp: enriched_Some)
    show ?thesis
    proof (rule enrich_fields [OF e])
      fix new
      assume f1: "\<And>k. k \<noteq> ''customAnalysis'' \<Longrightarrow>
             field (output_bookmarks output ! i) k = field (input_bookmarks export_data ! i) k"
        and f2: "field (output_bookmarks output ! i) ''customAnalysis'' = Some new"
        and f3: "\<And>custom k. field (input_bookmarks export_data ! i) ''customAnalysis'' = Some custom \<Longrightarrow>
             k \<noteq> ''sentiment'' \<Longrightarrow> k \<noteq> ''sentimentScore'' \<Longrightarrow>
             field new k = field custom k"
      have a: "\<forall>k. k \<noteq> ''customAnalysis'' \<longrightarrow>
               field (output_bookmarks output ! i) k = field (input_bookmarks export_data ! i) k"
        using f1 by simp
      have b: "\<forall>custom. field (input_bookmarks export_data ! i) ''customAnalysis'' = Some custom \<longrightarrow>
               (\<exists>custom'. field (output_bookmarks output ! i) ''customAnalysis'' = Some custom' \<and>
                  (\<forall>k. k \<noteq> ''sentiment'' \<and> k \<noteq> ''sentimentScore'' \<longrightarrow>
                     field custom' k = field custom k))"
      proof (intro allI impI)
        fix custom
        assume c: "field (input_bookmarks export_data ! i) ''customAnalysis'' = Some custom"
        have "\<forall>k. k \<noteq> ''sentiment'' \<and> k \<noteq> ''sentimentScore'' \<longrightarrow> field new k = field custom k"
          using f3 [OF c] by simp
        with f2 show "\<exists>custom'. field (output_bookmarks output ! i) ''customAnalysis'' = Some custom' \<and>
                  (\<forall>k. k \<noteq> ''sentiment'' \<and> k \<noteq> ''sentimentScore'' \<longrightarrow>
                     field custom' k = field custom k)"
          by (intro exI [of _ new] conjI)
      qed
      from a b show ?thesis by (rule conjI)
    qed
  qed
  from each have "\<forall>i<length (input_bookmarks export_data).
            (\<forall>k. k \<noteq> ''customAnalysis'' \<longrightarrow>
               field (output_bookmarks output ! i) k = field (input_bookmarks export_data ! i) k) \<and>
            (\<forall>custom. field (input_bookmarks export_data ! i) ''customAnalysis'' = Some custom \<longrightarrow>
               (\<exists>custom'. field (output_bookmarks output ! i) ''customAnalysis'' = Some custom' \<and>
                  (\<forall>k. k \<noteq> ''sentiment'' \<and> k \<noteq> ''sentimentScore'' \<longrightarrow>
                     field custom' k = field custom k)))"
    by (intro allI impI)
  with top show ?thesis by (rule conjI)
qed

theorem untouched_fields_preserved_witness:
  "field example_output ''version'' = Some (JInt 2) \<and>
   field example_export ''version'' = Some (JInt 2) \<and>
   field (output_bookmarks example_output ! 1) ''url'' = Some (JStr ''https://x.example'') \<and>
   field (input_bookmarks example_export ! 1) ''url'' = Some (JStr ''https://x.example'') \<and>
   (\<exists>custom'. field (output_bookmarks example_output ! 0) ''customAnalysis'' = Some custom' \<and>
      field custom' ''category'' = Some (JStr ''tools''))"
proof -
  note t = untouched_fields_preserved [OF example_main]
  have n: "0 < length (input_bookmarks example_export)" "1 < length (input_bookmarks example_export)"
    by (simp_all add: example_input_bookmarks)
  have v: "field example_export ''version'' = Some (JInt 2)"
    by (simp add: example_export_def)
  have u: "field (input_bookmarks example_export ! 1) ''url'' = Some (JStr ''https://x.example'')"
    by (simp add: example_input_bookmarks)
  have c: "field (input_bookmarks example_export ! 0) ''customAnalysis'' =
           Some (JObj [(''sentiment'', JStr ''negative''), (''sentimentScore'', JInt (- 1)),
                       (''category'', JStr ''tools'')])"
    by (simp add: example_input_bookmarks)
  from t have 1: "field example_output ''version'' = field example_export ''version''"
    by simp
  from t n(2) have 2: "field (output_bookmarks example_output ! 1) ''url'' =
                        field (input_bookmarks example_export ! 1) ''url''"
    by simp
  note t0 = t [THEN conjunct2, rule_format, OF n(1)]
  note t0c = t0 [THEN conjunct2, rule_format, OF c]
  from t0c obtain custom' where
    c': "field (output_bookmarks example_output ! 0) ''customAnalysis'' = Some custom'"
    and k: "\<And>k. k \<noteq> ''sentiment'' \<and> k \<noteq> ''sentimentScore'' \<Longrightarrow>
         field custom' k = field (JObj [(''sentiment'', JStr ''negative''),
                       (''sentimentScore'', JInt (- 1)), (''category'', JStr ''tools'')]) k"
    by blast
  from k [of "''category''"] have "field custom' ''category'' = Some (JStr ''tools'')"
    by simp
  with c' have 3: "\<exists>custom'. field (output_bookmarks example_output ! 0) ''customAnalysis'' = Some custom' \<and>
      field custom' ''category'' = Some (JStr ''tools'')"
    by blast
  from 1 2 3 v u show ?thesis by simp
qed

text \<open>
  Claim C10: in every bookmark of a printed document the keys \<open>sentiment\<close> and
  \<open>sentimentScore\<close> of \<open>customAnalysis\<close> hold the label and the score that the scorer
  computes for the text of the input bookmark, whatever the input had under these keys.
\<close>

theorem computed_pair_overwrites:
  assumes "stdout (main (Some export_data)) = Some output"
  shows "\<forall>i<length (input_bookmarks export_data).
           \<exists>sentiment score custom'.
             scored (input_bookmarks export_data ! i) = Some (sentiment, score) \<and>
             field (output_bookmarks output ! i) ''customAnalysis'' = Some custom' \<and>
             field custom' ''sentiment'' = Some (JStr (label_str sentiment)) \<and>
             field custom' ''sentimentScore'' = Some (JFloat score)"
proof (intro allI impI)
  fix i assume i: "i < length (input_bookmarks export_data)"
  from assms have b: "build_output (Some export_data) = Inr output" by (simp add: main_stdout)
  then have en: "map enriched (input_bookmarks export_data) = map Some (output_bookmarks output)"
    by (rule build_output_bookmarks)
  from map_Some_nth(2) [OF en i]
  obtain l s where sc: "scored (input_bookmarks export_data ! i) = Some (l, s)"
    and e: "enrich (input_bookmarks export_data ! i) l s = Inr (output_bookmarks output ! i)"
    by (auto simp: enriched_Some)
  show "\<exists>sentiment score custom'.
             scored (input_bookmarks export_data ! i) = Some (sentiment, score) \<and>
             field (output_bookmarks output ! i) ''customAnalysis'' = Some custom' \<and>
             field custom' ''sentiment'' = Some (JStr (label_str sentiment)) \<and>
             field custom' ''sentimentScore'' = Some (JFloat score)"
  proof (rule enrich_fields [OF e])
    fix new
    assume "field (output_bookmarks output ! i) ''customAnalysis'' = Some new"
      and "field new ''sentiment'' = Some (JStr (label_str l))"
      and "field new ''sentimentScore'' = Some (JFloat s)"
    with sc show ?thesis
      by (intro exI [of _ l] exI [of _ s] exI [of _ new] conjI)
  qed
qed

theorem computed_pair_overwrites_witness:
  "field (input_bookmarks example_export ! 0) ''customAnalysis'' =
     Some (JObj [(''sentiment'', JStr ''negative''), (''sentimentScore'', JInt (- 1)),
                 (''category'', JStr ''tools'')]) \<and>
   scored (input_bookmarks example_export ! 0) = Some (Positive, 1) \<and>
   (\<exists>custom'. field (output_bookmarks example_output ! 0) ''customAnalysis'' = Some custom' \<and>
      field custom' ''sentiment'' = Some (JStr ''positive'') \<and>
      field custom' ''sentimentScore'' = Some (JFloat 1))"
proof -
  have n: "0 < length (input_bookmarks example_export)"
    by (simp add: example_input_bookmarks)
  have c: "field (input_bookmarks example_export ! 0) ''customAnalysis'' =
           Some (JObj [(''sentiment'', JStr ''negative''), (''sentimentScore'', JInt (- 1)),
                       (''category'', JStr ''tools'')])"
    by (simp add: example_input_bookmarks)
  have s: "scored (JObj [(''id'', JInt 1), (''text'', JStr ''Great, helpful tool!''),
              (''customAnalysis'', JObj [(''sentiment'', JStr ''negative''),
                                         (''sentimentScore'', JInt (- 1)),
                                         (''category'', JStr ''tools'')])]) = Some (Positive, 1)"
    by code_simp
  then have s': "scored (input_bookmarks example_export ! 0) = Some (Positive, 1)"
    by (simp add: example_input_bookmarks)
  from computed_pair_overwrites [OF example_main] n s'
  have "\<exists>custom'. field (output_bookmarks example_output ! 0) ''customAnalysis'' = Some custom' \<and>
      field custom' ''sentiment'' = Some (JStr ''positive'') \<and>
      field custom' ''sentimentScore'' = Some (JFloat 1)"
    by (auto simp: label_str_def)
  with c s' show ?thesis by blast
qed

text \<open>
  Claim C5, as amended: a run in which an exception is raised prints nothing on
  standard output, reports the exception on the error stream and exits with status 1,
  and a single bookmark whose processing raises fails the whole run, whatever the other
  bookmarks are. The runs that fail are: input that does not parse; a document that is
  no record; a value of \<open>bookmarks\<close> that cannot be iterated over (a number, a truth
  value, \<open>null\<close>); a non-empty string or a non-empty record as \<open>bookmarks\<close>, whose
  elements are strings; a list with an element that is no record or whose processing
  raises; and a value of \<open>metadata\<close> that is no record. For a document that is a record
  there are no other failing runs.
\<close>

theorem failing_run_aborts:
  "(build_output input_data = Inl e \<longrightarrow>
      main input_data = \<lparr>stdout = None, stderr = Some e, exit_status = 1\<rparr>) \<and>
   (exit_status (main input_data) \<noteq> 0 \<longrightarrow>
      stdout (main input_data) = None \<and> stderr (main input_data) \<noteq> None \<and>
      exit_status (main input_data) = 1) \<and>
   main None = \<lparr>stdout = None, stderr = Some JSONDecodeError, exit_status = 1\<rparr> \<and>
   ((\<forall>items. export_data \<noteq> JObj items) \<longrightarrow> exit_status (main (Some export_data)) = 1) \<and>
   (field export_data ''bookmarks'' = Some bookmarks \<and> iterate bookmarks = Inl e' \<longrightarrow>
      exit_status (main (Some export_data)) = 1) \<and>
   (b \<in> set (input_bookmarks export_data) \<and>
    (enriched b = None \<or> (\<forall>items. b \<noteq> JObj items)) \<longrightarrow>
      exit_status (main (Some export_data)) = 1 \<and> stdout (main (Some export_data)) = None) \<and>
   (field export_data ''bookmarks'' = Some (JStr (c # s)) \<or>
    field export_data ''bookmarks'' = Some (JObj (kv # kvs)) \<longrightarrow>
      exit_status (main (Some export_data)) = 1 \<and> stdout (main (Some export_data)) = None) \<and>
   (exit_status (main (Some (JObj doc_items))) = 1 \<longleftrightarrow>
      (\<exists>err. iterate (case map_of doc_items ''bookmarks'' of Some v \<Rightarrow> v | None \<Rightarrow> JArr []) = Inl err) \<or>
      (\<exists>x\<in>set (input_bookmarks (JObj doc_items)). enriched x = None) \<or>
      (\<forall>metadata_items.
         (case map_of doc_items ''metadata'' of Some v \<Rightarrow> v | None \<Rightarrow> JObj []) \<noteq> JObj metadata_items))"
proof -
  have ex: "exit_status (main i) = 1 \<longleftrightarrow> (\<exists>err. build_output i = Inl err)" for i
    by (simp add: main_def split: sum.splits)
  have 1: "build_output input_data = Inl e \<longrightarrow>
      main input_data = \<lparr>stdout = None, stderr = Some e, exit_status = 1\<rparr>"
    by (simp add: main_failure)
  have 2: "exit_status (main input_data) \<noteq> 0 \<longrightarrow>
      stdout (main input_data) = None \<and> stderr (main input_data) \<noteq> None \<and>
      exit_status (main input_data) = 1"
    by (simp add: main_def split: sum.splits)
  have 3: "main None = \<lparr>stdout = None, stderr = Some JSONDecodeError, exit_status = 1\<rparr>"
    by (simp add: main_def build_output_def)
  have 4: "(\<forall>items. export_data \<noteq> JObj items) \<longrightarrow> exit_status (main (Some export_data)) = 1"
    by (simp add: main_def build_output_not_JObj)
  have 5: "field export_data ''bookmarks'' = Some bookmarks \<and> iterate bookmarks = Inl e' \<longrightarrow>
      exit_status (main (Some export_data)) = 1"
  proof
    assume a: "field export_data ''bookmarks'' = Some bookmarks \<and> iterate bookmarks = Inl e'"
    then obtain items where d: "export_data = JObj items" by (cases export_data) auto
    with a have "build_output (Some export_data) = Inl e'"
      by (simp add: build_output_JObj)
    then show "exit_status (main (Some export_data)) = 1" by (simp add: main_failure)
  qed
  have bad: "exit_status (main (Some d)) = 1 \<and> stdout (main (Some d)) = None"
    if a: "x \<in> set (input_bookmarks d)" "enriched x = None" for x d
  proof -
    have "\<exists>e. build_output (Some d) = Inl e"
    proof (cases "\<exists>items. d = JObj items")
      case False
      then show ?thesis by (simp add: build_output_not_JObj)
    next
      case True
      then obtain items where dj: "d = JObj items" by blast
      show ?thesis
      proof (cases "iterate (case map_of items ''bookmarks'' of Some v \<Rightarrow> v | None \<Rightarrow> JArr [])")
        case (Inl e)
        then show ?thesis by (simp add: dj build_output_JObj)
      next
        case (Inr bs)
        then have "input_bookmarks d = bs" by (simp add: dj input_bookmarks_JObj)
        with a have "\<exists>e. enrich_loop bs [] (\<lambda>l. 0) = Inl e"
          by (auto intro: enrich_loop_failure)
        then show ?thesis using Inr by (auto simp: dj build_output_JObj)
      qed
    qed
    then show ?thesis by (auto simp: main_failure)
  qed
  have 6: "b \<in> set (input_bookmarks export_data) \<and>
      (enriched b = None \<or> (\<forall>items. b \<noteq> JObj items)) \<longrightarrow>
      exit_status (main (Some export_data)) = 1 \<and> stdout (main (Some export_data)) = None"
  proof
    assume "b \<in> set (input_bookmarks export_data) \<and>
      (enriched b = None \<or> (\<forall>items. b \<noteq> JObj items))"
    then have "b \<in> set (input_bookmarks export_data)" "enriched b = None"
      using enriched_not_JObj [of b] by blast+
    then show "exit_status (main (Some export_data)) = 1 \<and> stdout (main (Some export_data)) = None"
      by (rule bad)
  qed
  have 7: "field export_data ''bookmarks'' = Some (JStr (c # s)) \<or>
      field export_data ''bookmarks'' = Some (JObj (kv # kvs)) \<longrightarrow>
      exit_status (main (Some export_data)) = 1 \<and> stdout (main (Some export_data)) = None"
  proof
    assume a: "field export_data ''bookmarks'' = Some (JStr (c # s)) \<or>
      field export_data ''bookmarks'' = Some (JObj (kv # kvs))"
    then obtain items where d: "export_data = JObj items" by (cases export_data) auto
    from a have "JStr [c] \<in> set (input_bookmarks export_data) \<or>
                 JStr (fst kv) \<in> set (input_bookmarks export_data)"
      by (auto simp: d input_bookmarks_JObj)
    then obtain x where x: "x \<in> set (input_bookmarks export_data)" "\<forall>items. x \<noteq> JObj items"
      by auto
    from x(2) have "enriched x = None" by (rule enriched_not_JObj)
    with x(1) show "exit_status (main (Some export_data)) = 1 \<and> stdout (main (Some export_data)) = None"
      by (rule bad)
  qed
  have 8: "exit_status (main (Some (JObj doc_items))) = 1 \<longleftrightarrow>
      (\<exists>err. iterate (case map_of doc_items ''bookmarks'' of Some v \<Rightarrow> v | None \<Rightarrow> JArr []) = Inl err) \<or>
      (\<exists>x\<in>set (input_bookmarks (JObj doc_items)). enriched x = None) \<or>
      (\<forall>metadata_items.
         (case map_of doc_items ''metadata'' of Some v \<Rightarrow> v | None \<Rightarrow> JObj []) \<noteq> JObj metadata_items)"
  proof (cases "iterate (case map_of doc_items ''bookmarks'' of Some v \<Rightarrow> v | None \<Rightarrow> JArr [])")
    case (Inl err)
    then have "build_output (Some (JObj doc_items)) = Inl err" by (simp add: build_output_JObj)
    then have "exit_status (main (Some (JObj doc_items))) = 1" by (simp add: main_failure)
    with Inl show ?thesis by simp
  next
    case (Inr bs)
    then have ib: "input_bookmarks (JObj doc_items) = bs" by (simp add: input_bookmarks_JObj)
    show ?thesis
    proof (cases "\<exists>x\<in>set bs. enriched x = None")
      case True
      then obtain x where "x \<in> set (input_bookmarks (JObj doc_items))" "enriched x = None"
        using ib by auto
      then have "exit_status (main (Some (JObj doc_items))) = 1"
        using bad [of x "JObj doc_items"] by simp
      with True ib show ?thesis by simp
    next
      case False
      then have "\<forall>x\<in>set bs. enriched x \<noteq> None" by simp
      then obtain r where "enrich_loop bs [] (\<lambda>l. 0) = Inr r"
        using enrich_loop_total [of bs "[]" "\<lambda>l. 0"] by blast
      moreover obtain es cnt where "r = (es, cnt)" by (cases r)
      ultimately have loop: "enrich_loop bs [] (\<lambda>l. 0) = Inr (es, cnt)" by simp
      define mv where "mv = (case map_of doc_items ''metadata'' of Some v \<Rightarrow> v | None \<Rightarrow> JObj [])"
      have bo: "build_output (Some (JObj doc_items)) =
          (case unpack mv of
             Inl e \<Rightarrow> Inl e
           | Inr meta_items \<Rightarrow>
               Inr (JObj (AList.update ''metadata''
                      (JObj (AList.update ''sentimentAnalysis'' (tally_json cnt) meta_items))
                      (AList.update ''bookmarks'' (JArr es) doc_items))))"
        by (simp add: build_output_JObj Inr loop mv_def)
      have "(\<exists>err. build_output (Some (JObj doc_items)) = Inl err) \<longleftrightarrow>
            (\<forall>metadata_items. mv \<noteq> JObj metadata_items)"
        unfolding bo by (cases mv) simp_all
      then have m: "exit_status (main (Some (JObj doc_items))) = 1 \<longleftrightarrow>
            (\<forall>metadata_items.
               (case map_of doc_items ''metadata'' of Some v \<Rightarrow> v | None \<Rightarrow> JObj []) \<noteq>
               JObj metadata_items)"
        by (simp only: ex mv_def)
      have nb: "\<not> (\<exists>x\<in>set (input_bookmarks (JObj doc_items)). enriched x = None)"
        using False unfolding ib by blast
      have ni: "\<not> (\<exists>err. iterate (case map_of doc_items ''bookmarks'' of
                                      Some v \<Rightarrow> v | None \<Rightarrow> JArr []) = Inl err)"
        by (simp add: Inr)
      from m nb ni show ?thesis by blast
    qed
  qed
  from 1 2 3 4 5 6 7 8 show ?thesis by blast
qed

theorem failing_run_aborts_witness:
  "main (Some broken_export) = \<lparr>stdout = None, stderr = Some AttributeError, exit_status = 1\<rparr> \<and>
   JObj [(''text'', JInt 5)] \<in> set (input_bookmarks broken_export) \<and>
   enriched (JObj [(''text'', JInt 5)]) = None \<and>
   enriched (JObj [(''text'', JStr ''good'')]) \<noteq> None \<and>
   exit_status (main (Some (JObj [(''bookmarks'', JInt 7)]))) = 1 \<and>
   exit_status (main (Some (JArr []))) = 1 \<and>
   stdout (main (Some (JObj [(''bookmarks'', JArr [JNull])]))) = None \<and>
   stdout (main (Some (JObj [(''bookmarks'', JStr ''ab'')]))) = None \<and>
   exit_status (main (Some (JObj [(''bookmarks'', JArr []), (''metadata'', JInt 3)]))) = 1"
proof -
  note t = failing_run_aborts [of "Some broken_export" AttributeError]
  have 1: "main (Some broken_export) = \<lparr>stdout = None, stderr = Some AttributeError, exit_status = 1\<rparr>"
    using t broken_run by blast
  have 2: "JObj [(''text'', JInt 5)] \<in> set (input_bookmarks broken_export)"
    by (simp add: input_bookmarks_def broken_export_def py_bind_def)
  have 3: "enriched (JObj [(''text'', JInt 5)]) = None"
    by (simp add: enriched_def scored_def py_bind_def analyze_sentiment_def)
  have 4: "enriched (JObj [(''text'', JStr ''good'')]) \<noteq> None"
    by code_simp
  have 5: "exit_status (main (Some (JObj [(''bookmarks'', JInt 7)]))) = 1"
    using failing_run_aborts [of _ _ "JObj [(''bookmarks'', JInt 7)]" "JInt 7" TypeError]
    by simp
  have 6: "exit_status (main (Some (JArr []))) = 1"
    using failing_run_aborts [of _ _ "JArr []"] by simp
  have 7: "stdout (main (Some (JObj [(''bookmarks'', JArr [JNull])]))) = None"
    using failing_run_aborts [of _ _ "JObj [(''bookmarks'', JArr [JNull])]" _ _ JNull]
    by (simp add: input_bookmarks_def py_bind_def)
  have 8: "stdout (main (Some (JObj [(''bookmarks'', JStr ''ab'')]))) = None"
    using failing_run_aborts [where export_data = "JObj [(''bookmarks'', JStr ''ab'')]"
        and c = "CHR ''a''" and s = "''b''"]
    by simp
  have 9: "exit_status (main (Some (JObj [(''bookmarks'', JArr []), (''metadata'', JInt 3)]))) = 1"
    using failing_run_aborts [where doc_items = "[(''bookmarks'', JArr []), (''metadata'', JInt 3)]"]
    by simp
  from 1 2 3 4 5 6 7 8 9 show ?thesis by blast
qed

text \<open>
  A value of \<open>bookmarks\<close> that is present and no sequence of records does not always
  make the run fail: over the empty string and over the empty record the loop runs zero
  times, and the run prints a document with an empty array and exits with status 0.
\<close>

theorem empty_non_sequence_bookmarks_counterexample:
  "field (JObj [(''bookmarks'', JStr [])]) ''bookmarks'' = Some (JStr []) \<and>
   main (Some (JObj [(''bookmarks'', JStr [])])) =
     \<lparr>stdout = Some (JObj [(''bookmarks'', JArr []),
                            (''metadata'', JObj [(''sentimentAnalysis'',
                               JObj [(''positive'', JInt 0), (''negative'', JInt 0),
                                     (''neutral'', JInt 0)])])]),
      stderr = None, exit_status = 0\<rparr> \<and>
   field (JObj [(''bookmarks'', JObj [])]) ''bookmarks'' = Some (JObj []) \<and>
   main (Some (JObj [(''bookmarks'', JObj [])])) =
     \<lparr>stdout = Some (JObj [(''bookmarks'', JArr []),
                            (''metadata'', JObj [(''sentimentAnalysis'',
                               JObj [(''positive'', JInt 0), (''negative'', JInt 0),
                                     (''neutral'', JInt 0)])])]),
      stderr = None, exit_status = 0\<rparr>"
  by (simp add: main_def build_output_def py_bind_def tally_json_def)

end
